theory Spec2Isabelle
  imports Complex_Main
begin

section \<open>Platform: strings of the JavaScript runtime\<close>

text \<open>
  Strings are lists of 8-bit code units: the request line and the header values that
  Node hands to the program are latin1-decoded, so every code unit of a request path or
  of an accept header is a \<^typ>\<open>char\<close>.  Route paths and method names written by the
  developer are modelled over the same alphabet.
\<close>

text \<open>\<^verbatim>\<open>s.startsWith(p)\<close> and \<^verbatim>\<open>s.endsWith(p)\<close>.\<close>

definition startsWith :: "string \<Rightarrow> string \<Rightarrow> bool" where
  "startsWith s p = (take (length p) s = p)"

definition endsWith :: "string \<Rightarrow> string \<Rightarrow> bool" where
  "endsWith s p = (length p \<le> length s \<and> drop (length s - length p) s = p)"

text \<open>
  \<^verbatim>\<open>s.split(c)\<close> for a one-character separator: the empty string splits into one empty
  piece, and \<open>n\<close> separators give \<open>n + 1\<close> pieces.
\<close>

fun split :: "char \<Rightarrow> string \<Rightarrow> string list" where
  "split c [] = [[]]"
| "split c (x # xs) =
     (if x = c then [] # split c xs
      else (case split c xs of
              [] \<Rightarrow> [[x]]
            | p # ps \<Rightarrow> (x # p) # ps))"

text \<open>\<^verbatim>\<open>pieces.join(sep)\<close>.\<close>

fun join :: "string \<Rightarrow> string list \<Rightarrow> string" where
  "join sep [] = []"
| "join sep [p] = p"
| "join sep (p # q # ps) = p @ sep @ join sep (q # ps)"

text \<open>
  \<^verbatim>\<open>s.trim()\<close> removes white space and line terminators at both ends.  Among the 8-bit
  code units these are TAB, LF, VT, FF, CR, SP and NBSP.
\<close>

definition is_ws :: "char \<Rightarrow> bool" where
  "is_ws c = (of_char c \<in> {9, 10, 11, 12, 13, 32, 160 :: nat})"

definition trim :: "string \<Rightarrow> string" where
  "trim s = rev (dropWhile is_ws (rev (dropWhile is_ws s)))"

text \<open>
  \<^verbatim>\<open>s.toUpperCase()\<close>, code unit by code unit.  The letters \<^verbatim>\<open>a\<close> to \<^verbatim>\<open>z\<close> and the
  letters \<open>0xE0\<close> to \<open>0xFE\<close> (all but the division sign \<open>0xF7\<close>) go to the letter 32
  places before; the sharp s \<open>0xDF\<close> goes to \<^verbatim>\<open>SS\<close>; every other code unit stays, except
  the micro sign \<open>0xB5\<close> and the y with diaeresis \<open>0xFF\<close>, whose capital letters are
  not 8-bit code units: for a string with one of these the result is \<open>None\<close>.
\<close>

definition upper_char :: "char \<Rightarrow> string option" where
  "upper_char c =
     (let n = (of_char c :: nat)
      in if (97 \<le> n \<and> n \<le> 122) \<or> (224 \<le> n \<and> n \<le> 254 \<and> n \<noteq> 247)
           then Some [char_of (n - 32)]
         else if n = 223 then Some ''SS''
         else if n = 181 \<or> n = 255 then None
         else Some [c])"

fun toUpperCase :: "string \<Rightarrow> string option" where
  "toUpperCase [] = Some []"
| "toUpperCase (c # cs) =
     (case upper_char c of
        None \<Rightarrow> None
      | Some u \<Rightarrow> (case toUpperCase cs of None \<Rightarrow> None | Some us \<Rightarrow> Some (u @ us)))"

text \<open>
  \<^verbatim>\<open>s.toLowerCase()\<close>: the letters \<^verbatim>\<open>A\<close> to \<^verbatim>\<open>Z\<close> and the letters \<open>0xC0\<close> to \<open>0xDE\<close>
  (all but the multiplication sign \<open>0xD7\<close>) go to the letter 32 places after, and
  every other code unit stays.
\<close>

definition lower_char :: "char \<Rightarrow> char" where
  "lower_char c =
     (let n = (of_char c :: nat)
      in if (65 \<le> n \<and> n \<le> 90) \<or> (192 \<le> n \<and> n \<le> 222 \<and> n \<noteq> 215)
           then char_of (n + 32)
         else c)"

definition toLowerCase :: "string \<Rightarrow> string" where
  "toLowerCase s = map lower_char s"

section \<open>Platform: exceptions and results\<close>

text \<open>
  Every \<^verbatim>\<open>throw\<close> is a value.  \<open>Unmodelled\<close> is not an exception of the program: it
  marks an input that leaves the fragment of the runtime (regular expression syntax,
  number syntax) that this development models, so that nothing is claimed there.
\<close>

datatype exn = SyntaxError | TypeError | Error | UserError nat

datatype 'a result = Return 'a | Throw exn | Unmodelled

section \<open>Platform: regular expressions\<close>

text \<open>
  The fragment of the regular expressions of the runtime (no flags) that route patterns
  are compiled to: pattern characters, \<^verbatim>\<open>.\<close>, the class \<^verbatim>\<open>[^/]\<close>, the assertions
  \<^verbatim>\<open>^\<close> and \<^verbatim>\<open>$\<close>, named groups \<^verbatim>\<open>(?<name>...)\<close> and the greedy quantifiers
  \<^verbatim>\<open>*\<close>, \<^verbatim>\<open>+\<close>, \<^verbatim>\<open>?\<close>; and, since the segments of a route go into the pattern as
  they are written, the classes \<^verbatim>\<open>[...]\<close> and \<^verbatim>\<open>[^...]\<close> of plain characters (\<open>Class\<close>
  with its negation flag and its members).
\<close>

datatype regex =
    Chr char
  | Dot
  | NotSlash
  | Class bool string
  | Bol
  | Eol
  | Group string "regex list"
  | Star regex
  | Plus regex
  | Opt regex

text \<open>The fourteen syntax characters; every other character matches itself.\<close>

definition syntax_char :: "char \<Rightarrow> bool" where
  "syntax_char c = (c = CHR 0x5C \<or> c \<in> set ''^$.*+?()[]{}|'')"

text \<open>Group names: ASCII identifiers (letters, digits, \<^verbatim>\<open>$\<close> and \<^verbatim>\<open>_\<close>).\<close>

definition ident_start :: "char \<Rightarrow> bool" where
  "ident_start c =
     (let n = (of_char c :: nat)
      in (65 \<le> n \<and> n \<le> 90) \<or> (97 \<le> n \<and> n \<le> 122) \<or> c = CHR ''$'' \<or> c = CHR ''_'')"

definition ident_part :: "char \<Rightarrow> bool" where
  "ident_part c = (ident_start c \<or> (let n = (of_char c :: nat) in 48 \<le> n \<and> n \<le> 57))"

definition quantifiable :: "regex \<Rightarrow> bool" where
  "quantifiable r = (case r of Chr _ \<Rightarrow> True | Dot \<Rightarrow> True | NotSlash \<Rightarrow> True
                      | Class _ _ \<Rightarrow> True | Group _ _ \<Rightarrow> True | _ \<Rightarrow> False)"

definition quantified :: "regex \<Rightarrow> bool" where
  "quantified r = (case r of Star _ \<Rightarrow> True | Plus _ \<Rightarrow> True | Opt _ \<Rightarrow> True | _ \<Rightarrow> False)"

definition quantify :: "char \<Rightarrow> regex \<Rightarrow> regex" where
  "quantify c r = (if c = CHR ''*'' then Star r else if c = CHR ''+'' then Plus r else Opt r)"

text \<open>
  The parser of \<^verbatim>\<open>new RegExp(source)\<close>.  \<open>stk\<close> holds, for every group that is open,
  its name and the terms read before it; \<open>names\<close> the group names seen so far (a second
  group of the same name is a syntax error); \<open>acc\<close> the terms of the current
  alternative, last first.  A class runs to the first \<^verbatim>\<open>]\<close>, and a class that is not
  closed is a syntax error.  Syntax outside the fragment (escapes, alternation, braces,
  classes with an escape or a range, other groups, lazy quantifiers, group names beyond
  ASCII) gives \<open>Unmodelled\<close>.
\<close>

function parse ::
  "string \<Rightarrow> (string \<times> regex list) list \<Rightarrow> string list \<Rightarrow> regex list \<Rightarrow> regex list result"
where
  "parse [] stk names acc = (if stk = [] then Return (rev acc) else Throw SyntaxError)"
| "parse (c # cs) stk names acc =
     (if c = CHR ''^'' then parse cs stk names (Bol # acc)
      else if c = CHR ''$'' then parse cs stk names (Eol # acc)
      else if c = CHR ''.'' then parse cs stk names (Dot # acc)
      else if c = CHR ''*'' \<or> c = CHR ''+'' \<or> c = CHR ''?'' then
        (case acc of
           [] \<Rightarrow> Throw SyntaxError
         | r # rs \<Rightarrow>
             if quantifiable r then parse cs stk names (quantify c r # rs)
             else if quantified r \<and> c = CHR ''?'' then Unmodelled
             else Throw SyntaxError)
      else if c = CHR ''('' then
        (if take 2 cs = ''?<'' then
           (let name = takeWhile ident_part (drop 2 cs);
                rest = dropWhile ident_part (drop 2 cs)
            in if name = [] \<and> rest \<noteq> [] \<and> (hd rest = CHR ''='' \<or> hd rest = CHR ''!'')
                 then Unmodelled
               else if rest \<noteq> [] \<and> (hd rest = CHR 0x5C \<or> 128 \<le> (of_char (hd rest) :: nat))
                 then Unmodelled
               else if rest = [] \<or> hd rest \<noteq> CHR ''>'' \<or> name = [] \<or> \<not> ident_start (hd name)
                 then Throw SyntaxError
               else if name \<in> set names then Throw SyntaxError
               else parse (tl (dropWhile ident_part (drop 2 cs))) ((name, acc) # stk)
                      (names @ [name]) [])
         else Unmodelled)
      else if c = CHR '')'' then
        (case stk of
           [] \<Rightarrow> Throw SyntaxError
         | (name, outer) # stk' \<Rightarrow> parse cs stk' names (Group name (rev acc) # outer))
      else if c = CHR ''['' then
        (if take 3 cs = ''^/]'' then parse (drop 3 cs) stk names (NotSlash # acc)
         else
           (let body = takeWhile (\<lambda>x. x \<noteq> CHR '']'') cs
            in if dropWhile (\<lambda>x. x \<noteq> CHR '']'') cs = [] then Throw SyntaxError
               else if CHR 0x5C \<in> set body \<or> CHR ''-'' \<in> set body then Unmodelled
               else if take 1 body = ''^''
                 then parse (tl (dropWhile (\<lambda>x. x \<noteq> CHR '']'') cs)) stk names
                        (Class True (drop 1 body) # acc)
               else parse (tl (dropWhile (\<lambda>x. x \<noteq> CHR '']'') cs)) stk names
                      (Class False body # acc)))
      else if syntax_char c then Unmodelled
      else parse cs stk names (Chr c # acc))"
  by pat_completeness auto
termination
  apply (relation "measure (\<lambda>(cs, stk, names, acc). length cs)")
  apply simp_all
  subgoal for c cs
    using length_dropWhile_le [of ident_part "drop 2 cs"] by simp
  subgoal for c cs
    using length_dropWhile_le [of "\<lambda>x. x \<noteq> CHR '']''" cs] by simp
  subgoal for c cs
    using length_dropWhile_le [of "\<lambda>x. x \<noteq> CHR '']''" cs] by simp
  done

text \<open>A compiled regular expression: the terms of its pattern.\<close>

type_synonym regexp = "regex list"

definition RegExp :: "string \<Rightarrow> regexp result" where
  "RegExp source = parse source [] [] []"

text \<open>
  Matching, as the backtracking matcher of the runtime does it.  A state is the end
  index, the input that is left, and the captures of the groups that took part.  A
  matcher returns its successes in the order in which backtracking tries them, so
  that the match the runtime reports is the first one.
\<close>

type_synonym captures = "(string \<times> string) list"
type_synonym mstate = "nat \<times> string \<times> captures"
type_synonym matcher = "mstate \<Rightarrow> mstate list"

definition one :: "(char \<Rightarrow> bool) \<Rightarrow> matcher" where
  "one P = (\<lambda>(i, s, cs). case s of [] \<Rightarrow> [] | x # xs \<Rightarrow> if P x then [(Suc i, xs, cs)] else [])"

definition seq :: "matcher \<Rightarrow> matcher \<Rightarrow> matcher" where
  "seq f g = (\<lambda>st. concat (map g (f st)))"

definition seqs :: "matcher list \<Rightarrow> matcher" where
  "seqs fs = foldr seq fs (\<lambda>st. [st])"

text \<open>Entering a quantified term clears the captures of the groups inside it.\<close>

definition reset :: "string list \<Rightarrow> mstate \<Rightarrow> mstate" where
  "reset ns = (\<lambda>(i, s, cs). (i, s, filter (\<lambda>(k, v). k \<notin> set ns) cs))"

definition progress :: "mstate \<Rightarrow> mstate \<Rightarrow> bool" where
  "progress st st' = (fst st' \<noteq> fst st)"

text \<open>
  Greedy repetition with lower bound zero: one more iteration is tried first, and an
  iteration that matches the empty string is rejected; then the rest of the pattern
  goes on from the state before the iteration.  Every accepted iteration consumes a
  character, so the length of the input left bounds the number of iterations.
\<close>

primrec iter :: "nat \<Rightarrow> string list \<Rightarrow> matcher \<Rightarrow> matcher" where
  "iter 0 ns f = (\<lambda>st. [st])"
| "iter (Suc k) ns f =
     (\<lambda>st. concat (map (iter k ns f) (filter (progress st) (f (reset ns st)))) @ [st])"

definition star :: "string list \<Rightarrow> matcher \<Rightarrow> matcher" where
  "star ns f = (\<lambda>st. iter (length (fst (snd st))) ns f st)"

primrec group_names :: "regex \<Rightarrow> string list" where
  "group_names (Chr c) = []"
| "group_names Dot = []"
| "group_names NotSlash = []"
| "group_names (Class neg cs) = []"
| "group_names Bol = []"
| "group_names Eol = []"
| "group_names (Group n rs) = n # concat (map group_names rs)"
| "group_names (Star r) = group_names r"
| "group_names (Plus r) = group_names r"
| "group_names (Opt r) = group_names r"

primrec m :: "regex \<Rightarrow> matcher" where
  "m (Chr c) = one (\<lambda>x. x = c)"
| "m Dot = one (\<lambda>x. x \<noteq> CHR 0x0A \<and> x \<noteq> CHR 0x0D)"
| "m NotSlash = one (\<lambda>x. x \<noteq> CHR ''/'')"
| "m (Class neg cs) = one (\<lambda>x. (x \<in> set cs) \<noteq> neg)"
| "m Bol = (\<lambda>(i, s, cs). if i = 0 then [(i, s, cs)] else [])"
| "m Eol = (\<lambda>(i, s, cs). if s = [] then [(i, s, cs)] else [])"
| "m (Group n rs) =
     (\<lambda>(i, s, cs). map (\<lambda>(j, t, ds). (j, t, (n, take (j - i) s) # ds))
                       (seqs (map m rs) (i, s, cs)))"
| "m (Star r) = star (group_names r) (m r)"
| "m (Plus r) = seq (\<lambda>st. m r (reset (group_names r) st)) (star (group_names r) (m r))"
| "m (Opt r) = (\<lambda>st. filter (progress st) (m r (reset (group_names r) st)) @ [st])"

text \<open>
  \<^verbatim>\<open>re.exec(s)\<close> without the global or sticky flag: the match is tried at every start
  index from 0 on.  The result carries the matched text and \<^verbatim>\<open>groups\<close>, which is
  \<^verbatim>\<open>undefined\<close> (\<open>None\<close>) when the pattern has no named group, and otherwise holds every
  group name with its capture (\<open>None\<close> for a group that did not take part).
\<close>

type_synonym groups = "(string \<times> string option) list"

record match_result =
  matched :: string
  groups :: "groups option"

definition match_at :: "regexp \<Rightarrow> string \<Rightarrow> nat \<Rightarrow> mstate option" where
  "match_at re s i = (case seqs (map m re) (i, drop i s, []) of [] \<Rightarrow> None | st # _ \<Rightarrow> Some st)"

definition exec :: "regexp \<Rightarrow> string \<Rightarrow> match_result option" where
  "exec re s =
     (case List.map_filter (\<lambda>i. map_option (Pair i) (match_at re s i)) [0 ..< Suc (length s)] of
        [] \<Rightarrow> None
      | (i, j, t, cs) # _ \<Rightarrow>
          Some \<lparr> matched = take (j - i) (drop i s),
                 groups = (let ns = concat (map group_names re)
                           in if ns = [] then None else Some (map (\<lambda>n. (n, map_of cs n)) ns)) \<rparr>)"

text \<open>\<^verbatim>\<open>re.test(s)\<close> is \<^verbatim>\<open>re.exec(s) !== null\<close>.\<close>

definition test :: "regexp \<Rightarrow> string \<Rightarrow> bool" where
  "test re s = (exec re s \<noteq> None)"

section \<open>Pattern compiler\<close>

text \<open>
  \<^verbatim>\<open>prefixPath\<close> of \<^verbatim>\<open>RouterContext.create(prefix, extensions)\<close>: the prefix with a
  slash at both ends.
\<close>

definition prefixPath :: "string \<Rightarrow> string" where
  "prefixPath prefix =
     (if length prefix = 1 then
        (if prefix = ''/'' then ''/'' else ''/'' @ prefix @ ''/'')
      else if startsWith prefix ''/'' then
        (if endsWith prefix ''/'' then prefix else prefix @ ''/'')
      else if endsWith prefix ''/'' then ''/'' @ prefix
      else ''/'' @ prefix @ ''/'')"

text \<open>
  \<^verbatim>\<open>getPathRegExp(path)\<close> inside a router of prefix path \<open>pp\<close>.  The two calls of
  \<^verbatim>\<open>replace\<close> rewrite a slash at the end to \<^verbatim>\<open>/?\<close> and a \<^verbatim>\<open>/*\<close> at the end to
  \<^verbatim>\<open>/.*\<close>.
\<close>

definition cutout :: "string \<Rightarrow> string" where
  "cutout part = (if startsWith part '':'' then ''(?<'' @ drop 1 part @ ''>[^/]+)'' else part)"

definition replace_final_slash :: "string \<Rightarrow> string" where
  "replace_final_slash s = (if endsWith s ''/'' then butlast s @ ''/?'' else s)"

definition replace_final_star :: "string \<Rightarrow> string" where
  "replace_final_star s = (if endsWith s ''/*'' then take (length s - 2) s @ ''/.*'' else s)"

definition fullPath :: "string \<Rightarrow> string \<Rightarrow> string" where
  "fullPath pp path = pp @ (if startsWith path ''/'' then drop 1 path else path)"

definition pattern_source :: "string \<Rightarrow> string \<Rightarrow> string" where
  "pattern_source pp path =
     (let fullPathWithParamCutouts =
            replace_final_slash (join ''/'' (map cutout (split CHR ''/'' (fullPath pp path))))
      in ''^'' @ (if endsWith fullPathWithParamCutouts ''/*''
                  then replace_final_star fullPathWithParamCutouts
                  else fullPathWithParamCutouts @ ''$''))"

definition getPathRegExp :: "string \<Rightarrow> string \<Rightarrow> regexp result" where
  "getPathRegExp pp path = RegExp (pattern_source pp path)"

section \<open>Platform: arrays\<close>

text \<open>\<^verbatim>\<open>xs.indexOf(x)\<close>: the first index of \<open>x\<close>, or \<open>-1\<close>.\<close>

fun indexOf :: "'a list \<Rightarrow> 'a \<Rightarrow> int" where
  "indexOf [] x = -1"
| "indexOf (y # ys) x = (if y = x then 0 else (let i = indexOf ys x in if i = -1 then -1 else i + 1))"

text \<open>
  The array after \<^verbatim>\<open>xs.splice(start)\<close> and after \<^verbatim>\<open>xs.splice(start, count)\<close>.  A
  negative \<open>start\<close> counts from the end; with one argument everything from the start
  index on is removed.
\<close>

definition relative_start :: "'a list \<Rightarrow> int \<Rightarrow> nat" where
  "relative_start xs start =
     (if start < 0 then nat (max (int (length xs) + start) 0) else min (nat start) (length xs))"

definition splice1 :: "'a list \<Rightarrow> int \<Rightarrow> 'a list" where
  "splice1 xs start = take (relative_start xs start) xs"

definition splice2 :: "'a list \<Rightarrow> int \<Rightarrow> int \<Rightarrow> 'a list" where
  "splice2 xs start count =
     (let a = relative_start xs start;
          n = min (nat (max count 0)) (length xs - a)
      in take a xs @ drop (a + n) xs)"

section \<open>Platform: objects\<close>

text \<open>
  An object is its own enumerable fields in the order in which the runtime lists them:
  first the fields whose names are array indices, in ascending order, then the other
  fields in the order in which they were created.  Behind them are the members that
  every object inherits from \<^verbatim>\<open>Object.prototype\<close>: reading one of these names gives
  the inherited member, and so does the operator \<^verbatim>\<open>in\<close>.
\<close>

type_synonym 'v object = "(string \<times> 'v) list"

definition inherited_members :: "string list" where
  "inherited_members =
     [''constructor'', ''hasOwnProperty'', ''isPrototypeOf'', ''propertyIsEnumerable'',
      ''toLocaleString'', ''toString'', ''valueOf'', ''__proto__'', ''__defineGetter__'',
      ''__defineSetter__'', ''__lookupGetter__'', ''__lookupSetter__'']"

text \<open>
  A field name is an array index when it is the decimal numeral, without leading
  zeros, of a number below \<open>2\<^sup>3\<^sup>2 - 1\<close>.
\<close>

definition array_index :: "string \<Rightarrow> int option" where
  "array_index k =
     (let n = foldl (\<lambda>a c. 10 * a + ((of_char c :: int) - 48)) 0 k
      in if k \<noteq> [] \<and> list_all (\<lambda>c. 48 \<le> (of_char c :: int) \<and> (of_char c :: int) \<le> 57) k
            \<and> (k = ''0'' \<or> hd k \<noteq> CHR ''0'') \<and> n < 4294967295
         then Some n
         else None)"

text \<open>A new field whose name is the array index \<open>n\<close> goes before the first field that is
  not an array index below \<open>n\<close>.\<close>

fun insert_index :: "int \<Rightarrow> string \<times> 'v \<Rightarrow> 'v object \<Rightarrow> 'v object" where
  "insert_index n kv [] = [kv]"
| "insert_index n kv (x # xs) =
     (case array_index (fst x) of
        Some i \<Rightarrow> if i < n then x # insert_index n kv xs else kv # x # xs
      | None \<Rightarrow> kv # x # xs)"

text \<open>
  The assignment \<^verbatim>\<open>t[k] = v\<close> to an object that lets the name be assigned: the value
  of a field that the object has is replaced; a new field is added, at the end unless
  its name is an array index.
\<close>

definition assign_field :: "'v object \<Rightarrow> string \<times> 'v \<Rightarrow> 'v object" where
  "assign_field t kv =
     (if fst kv \<in> fst ` set t
      then map (\<lambda>(k, v). if k = fst kv then (k, snd kv) else (k, v)) t
      else (case array_index (fst kv) of
              Some n \<Rightarrow> insert_index n kv t
            | None \<Rightarrow> t @ [kv]))"

section \<open>Dispatch result\<close>

text \<open>\<^verbatim>\<open>RouterHandleResponse\<close>: the payload of a result is the value the handler returned.\<close>

datatype response = RESULT string | HANDLED | UNHANDLED

section \<open>Route listeners and the router context\<close>

text \<open>
  The read-only fields of a message context that dispatch and content negotiation
  read: the method, the path (the URL without its query string) and the accept header
  of the request.
\<close>

record request =
  req_method :: string
  path :: string
  accept :: "string option"

text \<open>
  A precondition of a listener is the method check that \<^verbatim>\<open>add\<close> appends, or a function
  of the application, named by a number.  A handler is a function of the application.
\<close>

datatype precond = MethodIs string | UserPre nat

record listener =
  pathAsRegExp :: regexp
  preConditions :: "precond list"
  routeHandler :: "nat option"

text \<open>
  An entry of a router's \<^verbatim>\<open>handlers\<close> array is a function object: a listener (by its
  reference, the index into \<open>listeners\<close>) or the \<^verbatim>\<open>handle\<close> function of a sub-router.
\<close>

datatype target = Listener nat | RouterHandle nat

text \<open>
  The class \<^verbatim>\<open>Headers\<close>.  Its private record \<^verbatim>\<open>headers\<close> is an object made by \<^verbatim>\<open>{}\<close>
  that holds, at the lower-cased name of a header, the array of its values.  The values
  are strings here (numbers and other objects with a \<^verbatim>\<open>toString\<close> are outside the
  model).
\<close>

type_synonym Headers = "string list object"

text \<open>
  The arguments that \<^verbatim>\<open>set\<close> and \<^verbatim>\<open>add\<close> take after the name (the rest parameter
  \<^verbatim>\<open>value\<close>): \<^verbatim>\<open>undefined\<close>, a string, or an array of strings.
\<close>

datatype hvalue = HUndefined | HString string | HArray "string list"

text \<open>
  \<^verbatim>\<open>values\<close>: the array when the call has one argument and it is an array, the
  arguments otherwise.
\<close>

definition header_values :: "hvalue list \<Rightarrow> hvalue list" where
  "header_values args = (case args of [HArray xs] \<Rightarrow> map HString xs | _ \<Rightarrow> args)"

text \<open>
  \<^verbatim>\<open>values.filter(it => it !== undefined).map(...)\<close>: what is stored.  An array
  among several arguments would be stored as it is, which is \<open>Unmodelled\<close>.
\<close>

fun stored_values :: "hvalue list \<Rightarrow> string list result" where
  "stored_values [] = Return []"
| "stored_values (HUndefined # vs) = stored_values vs"
| "stored_values (HString x # vs) =
     (case stored_values vs of Return xs \<Rightarrow> Return (x # xs) | Throw e \<Rightarrow> Throw e
      | Unmodelled \<Rightarrow> Unmodelled)"
| "stored_values (HArray xs # vs) = Unmodelled"

text \<open>
  \<^verbatim>\<open>get(name)\<close>: the first value of the header, \<^verbatim>\<open>undefined\<close> when the record has
  nothing at the name.  When the array of values is empty, or when the name is that
  of an inherited member (which is no array), \<^verbatim>\<open>values[0]\<close> is \<^verbatim>\<open>undefined\<close> and
  \<^verbatim>\<open>values[0].toString()\<close> throws.
\<close>

definition Headers_get :: "Headers \<Rightarrow> string \<Rightarrow> string option result" where
  "Headers_get hs name =
     (case map_of hs (toLowerCase name) of
        Some vals \<Rightarrow> (case vals of [] \<Rightarrow> Throw TypeError | v # _ \<Rightarrow> Return (Some v))
      | None \<Rightarrow>
          if toLowerCase name \<in> set inherited_members then Throw TypeError else Return None)"

text \<open>
  \<^verbatim>\<open>set(name, ...value)\<close>: \<^verbatim>\<open>this.headers[name.toLowerCase()] = ...\<close>.  The assignment
  to \<^verbatim>\<open>__proto__\<close> does not create a field (it calls the inherited setter), which
  is \<open>Unmodelled\<close>.
\<close>

definition Headers_set :: "Headers \<Rightarrow> string \<Rightarrow> hvalue list \<Rightarrow> Headers result" where
  "Headers_set hs name args =
     (case stored_values (header_values args) of
        Return xs \<Rightarrow>
          if toLowerCase name = ''__proto__'' then Unmodelled
          else Return (assign_field hs (toLowerCase name, xs))
      | Throw e \<Rightarrow> Throw e
      | Unmodelled \<Rightarrow> Unmodelled)"

text \<open>
  \<^verbatim>\<open>add(name, ...value)\<close>: \<^verbatim>\<open>current = (this.headers[name.toLowerCase()] ??= [])\<close>
  and \<^verbatim>\<open>current.push(...)\<close>.  An inherited member at the name is taken for
  \<^verbatim>\<open>current\<close>, and it has no \<^verbatim>\<open>push\<close>.
\<close>

definition Headers_add :: "Headers \<Rightarrow> string \<Rightarrow> hvalue list \<Rightarrow> Headers result" where
  "Headers_add hs name args =
     (case map_of hs (toLowerCase name) of
        Some current \<Rightarrow>
          (case stored_values (header_values args) of
             Return xs \<Rightarrow> Return (assign_field hs (toLowerCase name, current @ xs))
           | Throw e \<Rightarrow> Throw e
           | Unmodelled \<Rightarrow> Unmodelled)
      | None \<Rightarrow>
          if toLowerCase name \<in> set inherited_members then Throw TypeError
          else (case stored_values (header_values args) of
                  Return xs \<Rightarrow> Return (assign_field hs (toLowerCase name, xs))
                | Throw e \<Rightarrow> Throw e
                | Unmodelled \<Rightarrow> Unmodelled))"

text \<open>
  Everything a dispatch can change: the \<^verbatim>\<open>handlers\<close> array of the router, the listener
  objects (their preconditions and their handler are replaceable), and the mutable
  part of the message context (\<^verbatim>\<open>params\<close>, the response status, the response headers
  and the externally-handled flag).  \<^verbatim>\<open>params\<close> is \<^verbatim>\<open>undefined\<close> (\<open>None\<close>) until a
  listener assigns it.
\<close>

record state =
  handlers :: "target list"
  listeners :: "listener list"
  params :: "groups option"
  responseStatus :: int
  responseHeaders :: Headers
  externallyHandled :: bool

text \<open>
  The functions of the application: route handlers (returning a payload, or nothing),
  preconditions, and the handle functions of sub-routers.  Each reads the request and
  may change the state (detach a listener, set a header) or throw.
\<close>

record env =
  handler_fn :: "nat \<Rightarrow> request \<Rightarrow> state \<Rightarrow> string option result \<times> state"
  precond_fn :: "nat \<Rightarrow> request \<Rightarrow> state \<Rightarrow> bool result \<times> state"
  target_fn :: "nat \<Rightarrow> request \<Rightarrow> state \<Rightarrow> response result \<times> state"

subsection \<open>\<^verbatim>\<open>RouteListener.create\<close>\<close>

definition addPreCondition :: "nat \<Rightarrow> precond \<Rightarrow> state \<Rightarrow> state" where
  "addPreCondition a p st =
     (if a < length (listeners st)
      then st\<lparr>listeners := (listeners st)
                [a := (listeners st ! a)\<lparr>preConditions := preConditions (listeners st ! a) @ [p]\<rparr>]\<rparr>
      else st)"

definition replaceHandler :: "nat \<Rightarrow> nat \<Rightarrow> state \<Rightarrow> state" where
  "replaceHandler a h st =
     (if a < length (listeners st)
      then st\<lparr>listeners := (listeners st)[a := (listeners st ! a)\<lparr>routeHandler := Some h\<rparr>]\<rparr>
      else st)"

text \<open>
  The detach function that \<^verbatim>\<open>any\<close> gives a listener:
  \<^verbatim>\<open>() => handlers.splice(handlers.indexOf(listener))\<close>.
\<close>

definition detach :: "nat \<Rightarrow> state \<Rightarrow> state" where
  "detach a st = st\<lparr>handlers := splice1 (handlers st) (indexOf (handlers st) (Listener a))\<rparr>"

text \<open>
  The detach function that \<^verbatim>\<open>createRouter\<close> gives a sub-router:
  \<^verbatim>\<open>index = handlers.indexOf(router.handle); if (index !== -1) handlers.splice(index, 1)\<close>.
\<close>

definition router_detach :: "nat \<Rightarrow> state \<Rightarrow> state" where
  "router_detach k st =
     (let index = indexOf (handlers st) (RouterHandle k)
      in if index \<noteq> -1 then st\<lparr>handlers := splice2 (handlers st) index 1\<rparr> else st)"

fun run_precond :: "env \<Rightarrow> request \<Rightarrow> precond \<Rightarrow> state \<Rightarrow> bool result \<times> state" where
  "run_precond env rq (MethodIs M) st = (Return (req_method rq = M), st)"
| "run_precond env rq (UserPre k) st = precond_fn env k rq st"

text \<open>
  \<^verbatim>\<open>for (const preCondition of preConditions) if (!await preCondition(ctx)) return ...\<close>
  The loop reads the array of the listener as it is at every step, so a precondition
  that adds preconditions to its own listener is seen by the loop, and the loop need
  not end: \<open>None\<close> is a dispatch that does not return.  The result is \<open>Return False\<close>
  when a precondition fails and \<open>Return True\<close> when all have passed.
\<close>

partial_function (option) preConditions_loop ::
  "env \<Rightarrow> request \<Rightarrow> nat \<Rightarrow> nat \<Rightarrow> state \<Rightarrow> (bool result \<times> state) option"
where
  "preConditions_loop env rq a i st =
     (if a < length (listeners st) \<and> i < length (preConditions (listeners st ! a)) then
        (case run_precond env rq (preConditions (listeners st ! a) ! i) st of
           (Return ok, st') \<Rightarrow>
             if ok then preConditions_loop env rq a (Suc i) st' else Some (Return False, st')
         | (Throw e, st') \<Rightarrow> Some (Throw e, st')
         | (Unmodelled, st') \<Rightarrow> Some (Unmodelled, st'))
      else Some (Return True, st))"

declare preConditions_loop.simps [code]

text \<open>
  The end of \<^verbatim>\<open>wrappedRouteHandler\<close>: a handler that returns nothing has handled the
  request, and a value that it returns is the result.
\<close>

definition handler_response :: "string option result \<times> state \<Rightarrow> response result \<times> state" where
  "handler_response x =
     (case x of
        (Return None, st) \<Rightarrow> (Return HANDLED, st)
      | (Return (Some v), st) \<Rightarrow> (Return (RESULT v), st)
      | (Throw e, st) \<Rightarrow> (Throw e, st)
      | (Unmodelled, st) \<Rightarrow> (Unmodelled, st))"

text \<open>
  \<^verbatim>\<open>wrappedRouteHandler(ctx)\<close> of the listener at reference \<open>a\<close>.  The pattern is fixed
  when the listener is created; the handler is read when it is called.  A reference
  to no listener cannot occur in the program and is \<open>Unmodelled\<close>.
\<close>

definition wrappedRouteHandler ::
  "env \<Rightarrow> request \<Rightarrow> nat \<Rightarrow> state \<Rightarrow> (response result \<times> state) option"
where
  "wrappedRouteHandler env rq a st =
     (if \<not> a < length (listeners st) then Some (Unmodelled, st)
      else
        let re = pathAsRegExp (listeners st ! a) in
        if \<not> test re (path rq) then Some (Return UNHANDLED, st)
        else
          (case preConditions_loop env rq a 0 st of
             None \<Rightarrow> None
           | Some (Throw e, st1) \<Rightarrow> Some (Throw e, st1)
           | Some (Unmodelled, st1) \<Rightarrow> Some (Unmodelled, st1)
           | Some (Return ok, st1) \<Rightarrow>
               if \<not> ok then Some (Return UNHANDLED, st1)
               else
                 (case exec re (path rq) of
                    None \<Rightarrow> Some (Throw TypeError, st1)
                  | Some mr \<Rightarrow>
                      let st2 = st1\<lparr>params := groups mr\<rparr> in
                      if \<not> a < length (listeners st2) then Some (Unmodelled, st2)
                      else
                        (case routeHandler (listeners st2 ! a) of
                           None \<Rightarrow> Some (Throw TypeError, st2)
                         | Some h \<Rightarrow>
                             Some (handler_response (handler_fn env h rq st2))))))"

subsection \<open>\<^verbatim>\<open>RouterContext.create\<close>\<close>

text \<open>
  \<^verbatim>\<open>any(path, handler)\<close> in a router of prefix path \<open>pp\<close>; \<^verbatim>\<open>any(handler)\<close> is
  \<^verbatim>\<open>any('', handler)\<close>.  The compilation of the pattern comes first and may throw; then
  the listener is created, given its handler, and pushed.  The result is the
  reference of the new listener.
\<close>

definition any_route :: "string \<Rightarrow> string \<Rightarrow> nat \<Rightarrow> state \<Rightarrow> nat result \<times> state" where
  "any_route pp p h st =
     (case getPathRegExp pp p of
        Throw e \<Rightarrow> (Throw e, st)
      | Unmodelled \<Rightarrow> (Unmodelled, st)
      | Return re \<Rightarrow>
          (let a = length (listeners st);
               st1 = st\<lparr>listeners := listeners st @
                        [\<lparr>pathAsRegExp = re, preConditions = [], routeHandler = None\<rparr>]\<rparr>;
               st2 = replaceHandler a h st1
           in (Return a, st2\<lparr>handlers := handlers st2 @ [Listener a]\<rparr>)))"

text \<open>
  \<^verbatim>\<open>add(method, path, handler)\<close>, and \<^verbatim>\<open>get\<close> and \<^verbatim>\<open>post\<close> over it.  The listener
  is registered by \<^verbatim>\<open>any\<close> first; then \<^verbatim>\<open>METHOD = method.toUpperCase()\<close> is computed and
  the precondition \<^verbatim>\<open>ctx => ctx.method === METHOD\<close> is added.  A method whose upper
  case is not a string of 8-bit code units is \<open>Unmodelled\<close>.
\<close>

definition add :: "string \<Rightarrow> string \<Rightarrow> string \<Rightarrow> nat \<Rightarrow> state \<Rightarrow> nat result \<times> state" where
  "add pp mth p h st =
     (case any_route pp p h st of
        (Return a, st1) \<Rightarrow>
          (case toUpperCase mth of
             Some METHOD \<Rightarrow> (Return a, addPreCondition a (MethodIs METHOD) st1)
           | None \<Rightarrow> (Unmodelled, st1))
      | (Throw e, st1) \<Rightarrow> (Throw e, st1)
      | (Unmodelled, st1) \<Rightarrow> (Unmodelled, st1))"

definition get :: "string \<Rightarrow> string \<Rightarrow> nat \<Rightarrow> state \<Rightarrow> nat result \<times> state" where
  "get pp p h st = add pp ''GET'' p h st"

definition post :: "string \<Rightarrow> string \<Rightarrow> nat \<Rightarrow> state \<Rightarrow> nat result \<times> state" where
  "post pp p h st = add pp ''POST'' p h st"




section \<open>A router with three listeners\<close>

text \<open>
  A router of prefix \<^verbatim>\<open>/\<close> with three listeners, registered in this order: one for
  \<^verbatim>\<open>/a\<close>, and two for \<^verbatim>\<open>/b\<close>.  The second has a precondition of the application
  which detaches the second listener and fails; the handler of the third returns
  \<^verbatim>\<open>'third'\<close>.
\<close>

definition initial_state :: state where
  "initial_state = \<lparr>handlers = [], listeners = [], params = None, responseStatus = 200,
                     responseHeaders = [], externallyHandled = False\<rparr>"

definition three_listeners :: state where
  "three_listeners =
     (let st1 = snd (any_route ''/'' ''/a'' 0 initial_state);
          st2 = addPreCondition 1 (UserPre 0) (snd (any_route ''/'' ''/b'' 1 st1))
      in snd (any_route ''/'' ''/b'' 2 st2))"


definition request_to :: "string \<Rightarrow> string \<Rightarrow> request" where
  "request_to mth p = \<lparr>req_method = mth, path = p, accept = None\<rparr>"

text \<open>
  An application whose handlers all return \<^verbatim>\<open>'ok'\<close> and whose preconditions all pass.
\<close>

definition ok_env :: env where
  "ok_env =
     \<lparr>handler_fn = (\<lambda>h rq st. (Return (Some ''ok''), st)),
      precond_fn = (\<lambda>k rq st. (Return True, st)),
      target_fn = (\<lambda>k rq st. (Return UNHANDLED, st))\<rparr>"



section \<open>Message context: status, headers and redirects\<close>

text \<open>
  The table \<^verbatim>\<open>mimeTypeShorthands\<close>.  The program asks \<^verbatim>\<open>name in mimeTypeShorthands\<close>,
  which also holds for the members that every object inherits (\<open>inherited_members\<close>).
\<close>

definition mimeTypeShorthands :: "(string \<times> string) list" where
  "mimeTypeShorthands =
     [(''json'', ''application/json''), (''html'', ''text/html''), (''css'', ''text/css''),
      (''js'', ''text/javascript''), (''javascript'', ''text/javascript''),
      (''svg'', ''image/svg+xml''), (''png'', ''image/png''), (''jpeg'', ''image/jpeg''),
      (''jpg'', ''image/jpeg'')]"

definition in_mimeTypeShorthands :: "string \<Rightarrow> bool" where
  "in_mimeTypeShorthands name =
     (name \<in> fst ` set mimeTypeShorthands \<or> name \<in> set inherited_members)"

text \<open>\<^verbatim>\<open>ctx.status(status)\<close> with an argument sets the response status.\<close>

definition status_set :: "int \<Rightarrow> state \<Rightarrow> state" where
  "status_set n st = st\<lparr>responseStatus := n\<rparr>"

text \<open>
  \<^verbatim>\<open>ctx.setHeader(name, value)\<close> for a string value: \<^verbatim>\<open>responseHeaders.set\<close> with
  that one argument.  A content type that is a shorthand is expanded; for an inherited
  member the program would store a value that is not a string, which is
  \<open>Unmodelled\<close>.
\<close>

definition set_responseHeader :: "string \<Rightarrow> string \<Rightarrow> state \<Rightarrow> state result" where
  "set_responseHeader name v st =
     (case Headers_set (responseHeaders st) name [HString v] of
        Return hs \<Rightarrow> Return (st\<lparr>responseHeaders := hs\<rparr>)
      | Throw e \<Rightarrow> Throw e
      | Unmodelled \<Rightarrow> Unmodelled)"

definition setHeader :: "string \<Rightarrow> string \<Rightarrow> state \<Rightarrow> state result" where
  "setHeader name v st =
     (if toLowerCase name = ''content-type'' \<and> in_mimeTypeShorthands v then
        (case map_of mimeTypeShorthands v of
           Some full \<Rightarrow> set_responseHeader name full st
         | None \<Rightarrow> Unmodelled)
      else set_responseHeader name v st)"

text \<open>\<^verbatim>\<open>redirect\<close>, \<^verbatim>\<open>redirectPermanent\<close> and \<^verbatim>\<open>redirectPermanentCompat\<close>.\<close>

definition redirect :: "string \<Rightarrow> request \<Rightarrow> state \<Rightarrow> state result" where
  "redirect location rq st =
     setHeader ''Location'' location
       (status_set (if req_method rq = ''PUT'' \<or> req_method rq = ''POST'' then 303 else 307) st)"

definition redirectPermanent :: "string \<Rightarrow> request \<Rightarrow> state \<Rightarrow> state result" where
  "redirectPermanent location rq st =
     setHeader ''Location'' location
       (status_set (if req_method rq = ''PUT'' \<or> req_method rq = ''POST'' then 303 else 308) st)"

definition redirectPermanentCompat :: "string \<Rightarrow> request \<Rightarrow> state \<Rightarrow> state result" where
  "redirectPermanentCompat location rq st =
     setHeader ''Location'' location
       (status_set (if req_method rq = ''PUT'' \<or> req_method rq = ''POST'' then 303 else 301) st)"

section \<open>Extension decoration\<close>

text \<open>
  A decoration hook of an extension reads the target and returns a partial object or
  nothing; what it does besides is a change of a world \<open>'w\<close>.  An extension defines
  any subset of the hooks.
\<close>

type_synonym ('v, 'w) hook = "'v object \<Rightarrow> 'w \<Rightarrow> 'v object option \<times> 'w"

record ('v, 'w) extension =
  name :: string
  decorateMessageContext :: "('v, 'w) hook option"
  decorateRouterContext :: "('v, 'w) hook option"
  decorateApplication :: "('v, 'w) hook option"

text \<open>
  \<^verbatim>\<open>execFunctionOnArray(array, functionName, ...params)\<close>: the extensions that have
  the function are kept (\<^verbatim>\<open>filter\<close>), and \<^verbatim>\<open>map\<close> calls the function of each, in the
  order of the array; \<^verbatim>\<open>Promise.all\<close> gives the results in that order.
\<close>

fun call_all :: "('v, 'w) hook list \<Rightarrow> 'v object \<Rightarrow> 'w \<Rightarrow> 'v object option list \<times> 'w" where
  "call_all [] t w = ([], w)"
| "call_all (f # fs) t w =
     (let (r, w1) = f t w; (rs, w2) = call_all fs t w1 in (r # rs, w2))"

definition execFunctionOnArray ::
  "('v, 'w) extension list \<Rightarrow> (('v, 'w) extension \<Rightarrow> ('v, 'w) hook option) \<Rightarrow> 'v object \<Rightarrow> 'w
     \<Rightarrow> 'v object option list \<times> 'w"
where
  "execFunctionOnArray array functionName t w = call_all (List.map_filter functionName array) t w"

text \<open>\<^verbatim>\<open>doLifecycle\<close> calls the functions and drops what they return.\<close>

definition doLifecycle ::
  "('v, 'w) extension list \<Rightarrow> (('v, 'w) extension \<Rightarrow> ('v, 'w) hook option) \<Rightarrow> 'v object \<Rightarrow> 'w \<Rightarrow> 'w"
where
  "doLifecycle array functionName t w = snd (execFunctionOnArray array functionName t w)"

text \<open>
  \<^verbatim>\<open>Object.assign(target, ...sources)\<close>: the fields of every source are assigned to
  the target, source after source and field after field, each by an assignment that
  throws a \<^verbatim>\<open>TypeError\<close> when the target does not let the name be assigned: \<open>ro\<close>
  holds these names of the target (a property with a getter and no setter, a property
  that is not writable).  The assignment to \<^verbatim>\<open>__proto__\<close> calls the setter that every
  object inherits, which is \<open>Unmodelled\<close>.  The target is changed in place, so the
  fields assigned before a failure stay: the result is the outcome and the target
  after the call.
\<close>

fun assign_fields :: "string list \<Rightarrow> 'v object \<Rightarrow> 'v object \<Rightarrow> unit result \<times> 'v object" where
  "assign_fields ro t [] = (Return (), t)"
| "assign_fields ro t (kv # kvs) =
     (if fst kv = ''__proto__'' then (Unmodelled, t)
      else if fst kv \<in> set ro then (Throw TypeError, t)
      else assign_fields ro (assign_field t kv) kvs)"

fun Object_assign :: "string list \<Rightarrow> 'v object \<Rightarrow> 'v object list \<Rightarrow> unit result \<times> 'v object" where
  "Object_assign ro t [] = (Return (), t)"
| "Object_assign ro t (src # sources) =
     (case assign_fields ro t src of
        (Return u, t1) \<Rightarrow> Object_assign ro t1 sources
      | (Throw e, t1) \<Rightarrow> (Throw e, t1)
      | (Unmodelled, t1) \<Rightarrow> (Unmodelled, t1))"

text \<open>
  The names that the targets of decoration do not let assign.  The application is the
  function \<^verbatim>\<open>handlerFunction\<close>: its \<^verbatim>\<open>length\<close> and \<^verbatim>\<open>name\<close> are not writable, and
  \<^verbatim>\<open>arguments\<close> and \<^verbatim>\<open>caller\<close> cannot be assigned on a function.  A message context
  has the getters \<^verbatim>\<open>bodyAsBuffer\<close> and \<^verbatim>\<open>isExternallyHandled\<close>, without setters.  All
  fields of a router context made by \<^verbatim>\<open>RouterContext.create\<close> can be assigned.
\<close>

definition function_read_only :: "string list" where
  "function_read_only = [''length'', ''name'', ''arguments'', ''caller'']"

definition messageContext_read_only :: "string list" where
  "messageContext_read_only = [''bodyAsBuffer'', ''isExternallyHandled'']"

definition routerContext_read_only :: "string list" where
  "routerContext_read_only = []"

text \<open>\<^verbatim>\<open>results.filter(Boolean)\<close> keeps the partial objects that were returned.\<close>

definition filter_Boolean :: "'v object option list \<Rightarrow> 'v object list" where
  "filter_Boolean rs = List.map_filter id rs"

text \<open>
  The three decorations.  Each gives the outcome, the target after the call and the
  world after the hooks.  \<^verbatim>\<open>decorateApplication\<close> is called with the application only
  and \<^verbatim>\<open>decorateMessageContext\<close> with a message context only;
  \<^verbatim>\<open>decorateRouterContext\<close> is called with the application and with sub-routers, so
  the names that its target does not let assign are a parameter.
\<close>

definition decorate_Application ::
  "'v object \<Rightarrow> ('v, 'w) extension list \<Rightarrow> 'w \<Rightarrow> unit result \<times> 'v object \<times> 'w" where
  "decorate_Application app extensions w =
     (let (rs, w1) = execFunctionOnArray extensions decorateApplication app w;
          (r, app1) = Object_assign function_read_only app (filter_Boolean rs)
      in (r, app1, w1))"

definition decorate_RouterContext ::
  "string list \<Rightarrow> 'v object \<Rightarrow> ('v, 'w) extension list \<Rightarrow> 'w \<Rightarrow> unit result \<times> 'v object \<times> 'w"
where
  "decorate_RouterContext ro router extensions w =
     (let w0 = doLifecycle extensions decorateRouterContext router w;
          (rs, w1) = execFunctionOnArray extensions decorateRouterContext router w0;
          (r, router1) = Object_assign ro router (filter_Boolean rs)
      in (r, router1, w1))"

definition decorate_MessageContext ::
  "'v object \<Rightarrow> ('v, 'w) extension list \<Rightarrow> 'w \<Rightarrow> unit result \<times> 'v object \<times> 'w" where
  "decorate_MessageContext message extensions w =
     (let w0 = doLifecycle extensions decorateMessageContext message w;
          (rs, w1) = execFunctionOnArray extensions decorateMessageContext message w0;
          (r, message1) = Object_assign messageContext_read_only message (filter_Boolean rs)
      in (r, message1, w1))"

text \<open>
  \<^verbatim>\<open>app.install(factory, setup)\<close>, from the extension that the factory has created:
  it is pushed, and the application object, which is also the root router, is
  decorated with it alone, as a router and then, when that has not failed, as an
  application.
\<close>

definition install ::
  "('v, 'w) extension \<Rightarrow> 'v object \<times> ('v, 'w) extension list \<times> 'w
     \<Rightarrow> unit result \<times> 'v object \<times> ('v, 'w) extension list \<times> 'w" where
  "install extension = (\<lambda>(app, extensions, w).
     (case decorate_RouterContext function_read_only app [extension] w of
        (Return u, app1, w1) \<Rightarrow>
          (let (r, app2, w2) = decorate_Application app1 [extension] w1
           in (r, app2, extensions @ [extension], w2))
      | (Throw e, app1, w1) \<Rightarrow> (Throw e, app1, extensions @ [extension], w1)
      | (Unmodelled, app1, w1) \<Rightarrow> (Unmodelled, app1, extensions @ [extension], w1)))"

text \<open>Installing extensions one after the other, up to the first failure.\<close>

fun installs ::
  "('v, 'w) extension list \<Rightarrow> 'v object \<times> ('v, 'w) extension list \<times> 'w
     \<Rightarrow> unit result \<times> 'v object \<times> ('v, 'w) extension list \<times> 'w" where
  "installs [] s = (Return (), s)"
| "installs (e # es) s =
     (case install e s of
        (Return u, s1) \<Rightarrow> installs es s1
      | (Throw x, s1) \<Rightarrow> (Throw x, s1)
      | (Unmodelled, s1) \<Rightarrow> (Unmodelled, s1))"

text \<open>
  Extensions for the examples: one whose application hook returns the field
  \<^verbatim>\<open>greet\<close> with a given value and records in the world that it was called, one that
  defines no hook, and one whose message-context hook returns one field of a given
  name.
\<close>

definition greeter :: "string \<Rightarrow> nat \<Rightarrow> (nat, string list) extension" where
  "greeter n v = \<lparr>name = n, decorateMessageContext = None, decorateRouterContext = None,
                  decorateApplication = Some (\<lambda>t w. (Some [(''greet'', v)], w @ [n]))\<rparr>"

definition silent :: "(nat, string list) extension" where
  "silent = \<lparr>name = ''silent'', decorateMessageContext = None, decorateRouterContext = None,
             decorateApplication = None\<rparr>"

definition field_setter :: "string \<Rightarrow> string \<Rightarrow> nat \<Rightarrow> (nat, string list) extension" where
  "field_setter n k v = \<lparr>name = n,
                         decorateMessageContext = Some (\<lambda>t w. (Some [(k, v)], w @ [n])),
                         decorateRouterContext = None, decorateApplication = None\<rparr>"

text \<open>
  The statement of last-writer-wins: the results of the hooks can all be assigned to
  a target when no field of a result has a name that the target does not let assign;
  no field of a result is named \<^verbatim>\<open>__proto__\<close>; and the value written last for a name
  is that of the last result that has the name.
\<close>

definition assignable :: "string list \<Rightarrow> 'v object option list \<Rightarrow> bool" where
  "assignable ro rs = list_all (list_all (\<lambda>kv. fst kv \<notin> set ro)) (filter_Boolean rs)"

definition ordinary_names :: "'v object option list \<Rightarrow> bool" where
  "ordinary_names rs = list_all (list_all (\<lambda>kv. fst kv \<noteq> ''__proto__'')) (filter_Boolean rs)"

definition last_written :: "'v object option list \<Rightarrow> string \<Rightarrow> 'v option" where
  "last_written rs k =
     (case List.map_filter (\<lambda>src. map_of (rev src) k) (rev (filter_Boolean rs)) of
        [] \<Rightarrow> None
      | v # _ \<Rightarrow> Some v)"

section \<open>Platform: numbers\<close>

text \<open>
  The values that a field of an accept entry can hold, and the outcome of the
  conversion \<^verbatim>\<open>+value\<close> of a string.  Numbers are modelled as rationals: the
  conversion below accepts decimal literals of at most 15 digits, which the doubles
  of the runtime tell apart and order as the rationals do.
\<close>

datatype jsval = Undefined | Str string | Num rat

datatype number = NaN | Finite rat

definition is_digit :: "char \<Rightarrow> bool" where
  "is_digit c = (let n = (of_char c :: nat) in 48 \<le> n \<and> n \<le> 57)"

definition digits_value :: "string \<Rightarrow> nat" where
  "digits_value ds = foldl (\<lambda>n c. 10 * n + (of_char c - 48)) 0 ds"

text \<open>
  An unsigned decimal literal without exponent: \<^verbatim>\<open>12\<close>, \<^verbatim>\<open>12.\<close>, \<^verbatim>\<open>12.5\<close> or \<^verbatim>\<open>.5\<close>,
  of at most 15 digits.
\<close>

definition unsigned_decimal :: "string \<Rightarrow> rat option" where
  "unsigned_decimal s =
     (let ip = takeWhile is_digit s; r = dropWhile is_digit s
      in if r = [] then
           (if ip \<noteq> [] \<and> length ip \<le> 15 then Some (of_nat (digits_value ip)) else None)
         else if hd r = CHR ''.'' \<and> list_all is_digit (tl r) \<and> (ip \<noteq> [] \<or> tl r \<noteq> [])
                 \<and> length ip + length (tl r) \<le> 15
         then Some (of_nat (digits_value (ip @ tl r)) / of_nat (10 ^ length (tl r)))
         else None)"

text \<open>
  \<^verbatim>\<open>+value\<close> for a string: white space around the literal is dropped, the empty
  string is 0, a signed decimal literal is its value, and a string that begins with
  none of a digit, a sign, a point or \<^verbatim>\<open>I\<close> is not a number.  The other literals
  of the runtime (exponents, \<^verbatim>\<open>Infinity\<close>, hexadecimal, more than 15 digits) are
  \<open>Unmodelled\<close>.
\<close>

definition to_number :: "string \<Rightarrow> number result" where
  "to_number v =
     (let s = trim v in
      if s = [] then Return (Finite 0)
      else
        (case (if hd s = CHR ''-'' then map_option uminus (unsigned_decimal (tl s))
               else if hd s = CHR ''+'' then unsigned_decimal (tl s)
               else unsigned_decimal s) of
           Some r \<Rightarrow> Return (Finite r)
         | None \<Rightarrow>
             if is_digit (hd s) \<or> hd s \<in> set ''+-.I'' then Unmodelled else Return NaN))"

section \<open>Message context: content negotiation\<close>

text \<open>
  An entry of the parsed accept header.  The program builds it as
  \<^verbatim>\<open>{ mimeType, q: 1, ...parameters }\<close>, so a parameter named \<^verbatim>\<open>q\<close> or \<^verbatim>\<open>mimeType\<close>
  replaces the field, by a number when its value converts to one and by the string
  (or \<^verbatim>\<open>undefined\<close>, when the parameter has no \<^verbatim>\<open>=\<close>) otherwise.  The other
  parameters become fields that the program never reads; they are left out.
\<close>

record entry =
  mimeType :: jsval
  q :: jsval

text \<open>
  One step of the \<^verbatim>\<open>reduce\<close> over the parameters, each already split at \<^verbatim>\<open>=\<close> into
  its pieces, of which the first is the name and the second, if any, the value.
\<close>

definition param_value :: "string list \<Rightarrow> jsval result" where
  "param_value pieces =
     (case tl pieces of
        [] \<Rightarrow> Return Undefined
      | v # _ \<Rightarrow>
          (case to_number v of
             Return NaN \<Rightarrow> Return (Str v)
           | Return (Finite r) \<Rightarrow> Return (Num r)
           | Throw e \<Rightarrow> Throw e
           | Unmodelled \<Rightarrow> Unmodelled))"

fun reduce_params :: "string list list \<Rightarrow> entry \<Rightarrow> entry result" where
  "reduce_params [] acc = Return acc"
| "reduce_params (pieces # rest) acc =
     (if hd pieces = [] then reduce_params rest acc
      else if hd pieces = ''q'' then
        (case param_value pieces of
           Return x \<Rightarrow> reduce_params rest (acc\<lparr>q := x\<rparr>)
         | Throw e \<Rightarrow> Throw e
         | Unmodelled \<Rightarrow> Unmodelled)
      else if hd pieces = ''mimeType'' then
        (case param_value pieces of
           Return x \<Rightarrow> reduce_params rest (acc\<lparr>mimeType := x\<rparr>)
         | Throw e \<Rightarrow> Throw e
         | Unmodelled \<Rightarrow> Unmodelled)
      else reduce_params rest acc)"

text \<open>The entry of one element of the header, \<^verbatim>\<open>it\<close>.\<close>

definition parse_entry :: "string \<Rightarrow> entry result" where
  "parse_entry it =
     (let pieces = map trim (split CHR '';'' it)
      in reduce_params (map (split CHR ''='') (tl pieces))
           \<lparr>mimeType = Str (hd pieces), q = Num 1\<rparr>)"

fun sequence :: "'a result list \<Rightarrow> 'a list result" where
  "sequence [] = Return []"
| "sequence (r # rs) =
     (case r of
        Return x \<Rightarrow> (case sequence rs of Return xs \<Rightarrow> Return (x # xs)
                                      | Throw e \<Rightarrow> Throw e | Unmodelled \<Rightarrow> Unmodelled)
      | Throw e \<Rightarrow> Throw e
      | Unmodelled \<Rightarrow> Unmodelled)"

definition q_number :: "entry \<Rightarrow> rat option" where
  "q_number e = (case q e of Num r \<Rightarrow> Some r | _ \<Rightarrow> None)"

text \<open>
  \<^verbatim>\<open>calc()\<close>: the entries of the accept header (the empty string when the request has
  none), sorted by \<^verbatim>\<open>(a, b) => b.q - a.q\<close>.  The sort of the runtime is stable.  When
  some \<^verbatim>\<open>q\<close> is not a number the comparison function is not consistent and the order
  is left to the runtime: \<open>Unmodelled\<close>.
\<close>

definition calc :: "string option \<Rightarrow> entry list result" where
  "calc header =
     (case sequence (map parse_entry (split CHR '','' (case header of None \<Rightarrow> [] | Some h \<Rightarrow> h))) of
        Return es \<Rightarrow>
          if list_all (\<lambda>e. q_number e \<noteq> None) es
          then Return (sort_key (\<lambda>e. - the (q_number e)) es)
          else Unmodelled
      | Throw e \<Rightarrow> Throw e
      | Unmodelled \<Rightarrow> Unmodelled)"

text \<open>
  The first two pieces of \<^verbatim>\<open>s.split('/')\<close>, as the destructuring
  \<^verbatim>\<open>[first, second] = s.split('/')\<close> binds them; the second is \<^verbatim>\<open>undefined\<close> when
  there is no slash.
\<close>

definition type_pair :: "string \<Rightarrow> string \<times> string option" where
  "type_pair s = (let ps = split CHR ''/'' s in (hd ps, if tl ps = [] then None else Some (hd (tl ps))))"

text \<open>
  \<^verbatim>\<open>resolvedTypes\<close>: every candidate with its type and subtype, a shorthand expanded.
  For a candidate that names an inherited member the looked-up value is not a string
  and \<^verbatim>\<open>.split\<close> throws.
\<close>

definition resolve :: "string \<Rightarrow> ((string \<times> string option) \<times> string) result" where
  "resolve it =
     (if in_mimeTypeShorthands it then
        (case map_of mimeTypeShorthands it of
           Some full \<Rightarrow> Return (type_pair full, it)
         | None \<Rightarrow> Throw TypeError)
      else Return (type_pair it, it))"

text \<open>The inner loop of \<^verbatim>\<open>accepts\<close>, over the resolved candidates.\<close>

fun scan_candidates ::
  "string \<times> string option \<Rightarrow> ((string \<times> string option) \<times> string) list \<Rightarrow> string option" where
  "scan_candidates a [] = None"
| "scan_candidates a ((t, v) # rest) =
     (if fst a \<noteq> fst t then scan_candidates a rest
      else if snd a = Some ''*'' then Some v
      else if snd a = snd t then Some v
      else scan_candidates a rest)"

text \<open>
  The outer loop, over the sorted entries.  An entry whose \<^verbatim>\<open>mimeType\<close> is not a
  string has no \<^verbatim>\<open>split\<close>: a type error, when the loop comes to it.
\<close>

fun walk_entries ::
  "entry list \<Rightarrow> string list \<Rightarrow> ((string \<times> string option) \<times> string) list \<Rightarrow> string option result" where
  "walk_entries [] types resolved = Return None"
| "walk_entries (e # es) types resolved =
     (case mimeType e of
        Str mt \<Rightarrow>
          if mt = ''*/*'' then Return (Some (hd types))
          else (case scan_candidates (type_pair mt) resolved of
                  Some v \<Rightarrow> Return (Some v)
                | None \<Rightarrow> walk_entries es types resolved)
      | _ \<Rightarrow> Throw TypeError)"

text \<open>
  \<^verbatim>\<open>ctx.accepts(...types)\<close>; \<open>Return None\<close> is the result \<^verbatim>\<open>false\<close>.  The candidates
  are resolved before the accept header is read.
\<close>

definition accepts :: "string option \<Rightarrow> string list \<Rightarrow> string option result" where
  "accepts header types =
     (if types = [] then Return None
      else
        (case sequence (map resolve types) of
           Return resolved \<Rightarrow>
             (case calc header of
                Return es \<Rightarrow> walk_entries es types resolved
              | Throw e \<Rightarrow> Throw e
              | Unmodelled \<Rightarrow> Unmodelled)
         | Throw e \<Rightarrow> Throw e
         | Unmodelled \<Rightarrow> Unmodelled))"

text \<open>
  \<^verbatim>\<open>ctx.accepting(obj)\<close>: \<open>obj\<close> is given by its fields in the order of
  \<^verbatim>\<open>Object.keys(obj)\<close>.  The result is the handler that is called.
\<close>

definition accepting :: "string option \<Rightarrow> (string \<times> 'h) list \<Rightarrow> 'h result" where
  "accepting header obj =
     (let keys = map fst obj in
      if ''else'' \<notin> set keys then Throw Error
      else
        (let keys' = splice2 keys (indexOf keys ''else'') 1;
             otherwise = (case map_of obj ''else'' of Some h \<Rightarrow> Return h | None \<Rightarrow> Unmodelled)
         in if length keys' > 0 then
              (case accepts header keys' of
                 Return (Some res) \<Rightarrow>
                   (case map_of obj res of Some h \<Rightarrow> Return h | None \<Rightarrow> Throw TypeError)
               | Return None \<Rightarrow> otherwise
               | Throw e \<Rightarrow> Throw e
               | Unmodelled \<Rightarrow> Unmodelled)
            else otherwise))"

text \<open>
  The walk of \<^verbatim>\<open>accepts\<close> in the words of the specification, over the mime types of
  the sorted entries: the first entry that is \<^verbatim>\<open>*/*\<close> or matches a candidate decides;
  \<^verbatim>\<open>*/*\<close> gives the first candidate, and another entry the first candidate, in the
  order of the arguments and after the expansion of shorthands, whose type is the
  type of the entry and whose subtype is the subtype of the entry unless that is
  \<^verbatim>\<open>*\<close>.
\<close>

definition expand :: "string \<Rightarrow> string" where
  "expand c = (case map_of mimeTypeShorthands c of Some full \<Rightarrow> full | None \<Rightarrow> c)"

definition entry_matches :: "string \<Rightarrow> string \<Rightarrow> bool" where
  "entry_matches mt c =
     (fst (type_pair mt) = fst (type_pair (expand c))
      \<and> (snd (type_pair mt) = Some ''*'' \<or> snd (type_pair mt) = snd (type_pair (expand c))))"

definition accepts_spec :: "string list \<Rightarrow> string list \<Rightarrow> string option" where
  "accepts_spec mts types =
     (case find (\<lambda>mt. mt = ''*/*'' \<or> list_ex (entry_matches mt) types) mts of
        None \<Rightarrow> None
      | Some mt \<Rightarrow> if mt = ''*/*'' then Some (hd types) else find (entry_matches mt) types)"

section \<open>Route patterns, segment by segment\<close>

text \<open>
  The segments of a route path that the specification describes: a literal segment
  has no syntax character of regular expressions and does not begin with a colon; a
  parameter segment is a colon and a name that is an identifier.
\<close>

definition literal_part :: "string \<Rightarrow> bool" where
  "literal_part p = (\<not> startsWith p '':'' \<and> list_all (\<lambda>c. \<not> syntax_char c) p)"

definition valid_name :: "string \<Rightarrow> bool" where
  "valid_name n = (n \<noteq> [] \<and> ident_start (hd n) \<and> list_all ident_part n)"

definition param_part :: "string \<Rightarrow> bool" where
  "param_part p = (startsWith p '':'' \<and> valid_name (drop 1 p))"

definition plain_part :: "string \<Rightarrow> bool" where
  "plain_part p = (literal_part p \<or> param_part p)"

definition param_names :: "string list \<Rightarrow> string list" where
  "param_names ps = map (drop 1) (filter (\<lambda>p. startsWith p '':'') ps)"

text \<open>
  A route path of the fragment: every segment is a literal or a parameter, except
  that the last may be \<^verbatim>\<open>*\<close>; no two parameters have the same name.
\<close>

definition plain_route :: "string list \<Rightarrow> bool" where
  "plain_route ps =
     (ps \<noteq> [] \<and> list_all plain_part (butlast ps) \<and> (plain_part (last ps) \<or> last ps = ''*'')
      \<and> distinct (param_names ps))"

text \<open>
  Matching in the words of the specification.  \<open>ps\<close> are the segments of the route
  path after its first slash and \<open>rs\<close> those of the request path.  A literal segment
  matches itself and a parameter segment every segment that is not empty.  A route
  that ends in \<^verbatim>\<open>*\<close> matches when the request has at least as many segments and
  those before the \<^verbatim>\<open>*\<close> match; a route that ends in a slash (its last segment is
  empty) matches with and without the last slash; any other route matches segment by
  segment.
\<close>

definition seg_ok :: "string \<Rightarrow> string \<Rightarrow> bool" where
  "seg_ok p r = (if startsWith p '':'' then r \<noteq> [] else r = p)"

definition spec_matches :: "string list \<Rightarrow> string \<Rightarrow> bool" where
  "spec_matches ps s =
     (hd (split CHR ''/'' s) = [] \<and>
      (let rs = tl (split CHR ''/'' s) in
       if last ps = ''*'' then length ps \<le> length rs \<and> list_all2 seg_ok (butlast ps) (take (length ps - 1) rs)
       else if last ps = [] then list_all2 seg_ok ps rs \<or> list_all2 seg_ok (butlast ps) rs
       else list_all2 seg_ok ps rs))"

text \<open>
  The parameters of a match: every parameter name of the route with the segment of
  the request at its place, and \<^verbatim>\<open>undefined\<close> for a route without parameters.
\<close>

definition spec_groups :: "string list \<Rightarrow> string \<Rightarrow> groups option" where
  "spec_groups ps s =
     (if param_names ps = [] then None
      else Some (map (\<lambda>(p, r). (drop 1 p, Some r))
                  (filter (\<lambda>(p, r). startsWith p '':'') (zip ps (tl (split CHR ''/'' s))))))"

text \<open>
  The terms that the pattern of a segment is parsed to, and those of a sequence of
  segments, each after its slash.
\<close>

definition items :: "string \<Rightarrow> regex list" where
  "items p = (if startsWith p '':'' then [Group (drop 1 p) [Plus NotSlash]] else map Chr p)"

definition lead_items :: "string list \<Rightarrow> regex list" where
  "lead_items ps = concat (map (\<lambda>p. Chr CHR ''/'' # items p) ps)"

definition lead_source :: "string list \<Rightarrow> string" where
  "lead_source ps = concat (map (\<lambda>p. CHR ''/'' # cutout p) ps)"

text \<open>
  Reading the segments of a route off a request path: after a slash, the segment up
  to the next slash must fit the segment of the route; a parameter captures it.
\<close>

definition seg_caps :: "string \<Rightarrow> string \<Rightarrow> captures" where
  "seg_caps p r = (if startsWith p '':'' then [(drop 1 p, r)] else [])"

fun consume :: "string list \<Rightarrow> mstate \<Rightarrow> mstate option" where
  "consume [] st = Some st"
| "consume (p # ps) (i, s, cs) =
     (case s of
        [] \<Rightarrow> None
      | c # t \<Rightarrow>
          (let r = takeWhile (\<lambda>x. x \<noteq> CHR ''/'') t in
           if c = CHR ''/'' \<and> seg_ok p r
           then consume ps (Suc i + length r, dropWhile (\<lambda>x. x \<noteq> CHR ''/'') t, seg_caps p r @ cs)
           else None))"

text \<open>
  A matcher is delimited when it fails wherever the input goes on with a character
  that is not a slash.
\<close>

definition delimited :: "matcher \<Rightarrow> bool" where
  "delimited g = (\<forall>i c t cs. c \<noteq> CHR ''/'' \<longrightarrow> g (i, c # t, cs) = [])"

text \<open>
  A request path that is empty or begins with a slash; the rest of it after its
  first \<open>k\<close> segments; and the captures of the parameters among the segments \<open>ps\<close>
  of a route on the segments \<open>rs\<close> of a request, last first.
\<close>

definition slash_led :: "string \<Rightarrow> bool" where
  "slash_led s = (s = [] \<or> hd s = CHR ''/'')"

fun rest_after :: "nat \<Rightarrow> string \<Rightarrow> string" where
  "rest_after 0 s = s"
| "rest_after (Suc k) s = rest_after k (dropWhile (\<lambda>x. x \<noteq> CHR ''/'') (tl s))"

definition caps_of :: "string list \<Rightarrow> string list \<Rightarrow> captures" where
  "caps_of ps rs = concat (rev (map (\<lambda>(p, r). seg_caps p r) (zip ps rs)))"

definition cap_pairs :: "string list \<Rightarrow> string list \<Rightarrow> captures" where
  "cap_pairs ps rs = map (\<lambda>(p, r). (drop 1 p, r)) (filter (\<lambda>(p, r). startsWith p '':'') (zip ps rs))"

section \<open>Dispatch over the snapshot of the target list\<close>


lemma three_listeners_value:
  "three_listeners =
    \<lparr>handlers = [Listener 0, Listener 1, Listener 2],
     listeners =
      [\<lparr>pathAsRegExp = [Bol, Chr CHR ''/'', Chr CHR ''a'', Eol],
          preConditions = [], routeHandler = Some 0\<rparr>,
       \<lparr>pathAsRegExp = [Bol, Chr CHR ''/'', Chr CHR ''b'', Eol],
          preConditions = [UserPre 0], routeHandler = Some 1\<rparr>,
       \<lparr>pathAsRegExp = [Bol, Chr CHR ''/'', Chr CHR ''b'', Eol],
          preConditions = [], routeHandler = Some 2\<rparr>],
     params = None, responseStatus = 200, responseHeaders = [],
     externallyHandled = False\<rparr>"
  by code_simp




section \<open>Detaching a listener\<close>

lemma indexOf_eq:
  "indexOf xs x = (if x \<in> set xs then int (length (takeWhile (\<lambda>y. y \<noteq> x) xs)) else -1)"
  by (induction xs) (auto simp: Let_def)

lemma take_length_takeWhile: "take (length (takeWhile P xs)) xs = takeWhile P xs"
  by (induction xs) auto

lemma nat_max_pred: "nat (max (int n - 1) 0) = n - Suc 0"
  by (cases n) auto

lemma length_takeWhile_neq:
  "x \<in> set xs \<Longrightarrow> length (takeWhile (\<lambda>y. y \<noteq> x) xs) < length xs"
  by (induction xs) auto

lemma detach_handlers:
  "handlers (detach a st) =
     (if Listener a \<in> set (handlers st)
      then takeWhile (\<lambda>t. t \<noteq> Listener a) (handlers st)
      else butlast (handlers st))"
proof (cases "Listener a \<in> set (handlers st)")
  case True
  have "length (takeWhile (\<lambda>t. t \<noteq> Listener a) (handlers st)) \<le> length (handlers st)"
    by (rule length_takeWhile_le)
  then show ?thesis using True
    by (simp add: detach_def splice1_def relative_start_def indexOf_eq take_length_takeWhile min_def)
next
  case False
  then show ?thesis
    by (simp add: detach_def splice1_def relative_start_def indexOf_eq butlast_conv_take nat_max_pred)
qed

lemma router_detach_handlers:
  "handlers (router_detach k st) = remove1 (RouterHandle k) (handlers st)"
proof (cases "RouterHandle k \<in> set (handlers st)")
  case True
  let ?n = "length (takeWhile (\<lambda>t. t \<noteq> RouterHandle k) (handlers st))"
  have n: "?n < length (handlers st)"
    using True by (rule length_takeWhile_neq)
  have r: "remove1 x xs = take (length (takeWhile (\<lambda>t. t \<noteq> x) xs)) xs
                          @ drop (Suc (length (takeWhile (\<lambda>t. t \<noteq> x) xs))) xs"
    for x :: target and xs
    by (induction xs) auto
  show ?thesis using True n
    by (simp add: router_detach_def splice2_def relative_start_def indexOf_eq Let_def r min_def)
next
  case False
  then show ?thesis
    by (simp add: router_detach_def indexOf_eq remove1_idem)
qed

text \<open>
  C2.  What \<^verbatim>\<open>detach()\<close> of a listener does to the target list of its router:
  \<^verbatim>\<open>splice\<close> is called with the index alone, so a listener that is in the list is
  removed together with every target registered after it, and a listener that is
  not in the list any more (index \<open>-1\<close>) removes the last target of the list.  In
  the router of three listeners, detaching the first empties the list, and detaching
  the third twice also removes the second.  The detach function of a sub-router
  removes its own entry only, and nothing when it is not in the list.
\<close>

theorem detach_removes_later_listeners:
  "handlers (detach a st) =
     (if Listener a \<in> set (handlers st)
      then takeWhile (\<lambda>t. t \<noteq> Listener a) (handlers st)
      else butlast (handlers st))
   \<and> handlers (router_detach k st) = remove1 (RouterHandle k) (handlers st)
   \<and> handlers three_listeners = [Listener 0, Listener 1, Listener 2]
   \<and> handlers (detach 0 three_listeners) = []
   \<and> handlers (detach 2 three_listeners) = [Listener 0, Listener 1]
   \<and> handlers (detach 2 (detach 2 three_listeners)) = [Listener 0]"
  by (simp add: detach_handlers router_detach_handlers three_listeners_value)

section \<open>Method routes\<close>

lemma toUpperCase_latin1:
  "toUpperCase ''Get'' = Some ''GET''
   \<and> toUpperCase [CHR 0xE9] = Some [CHR 0xC9]
   \<and> toUpperCase [CHR 0xF7] = Some [CHR 0xF7]
   \<and> toUpperCase [CHR 0xDF] = Some ''SS''
   \<and> toUpperCase [CHR 0xB5] = None
   \<and> toUpperCase [CHR 0xFF] = None
   \<and> toLowerCase [CHR 0xC9, CHR 0xD7, CHR ''Q''] = [CHR 0xE9, CHR 0xD7, CHR ''q'']
   \<and> map preConditions (listeners (snd (add ''/'' [CHR 0xE9] ''/x'' 0 initial_state)))
       = [[MethodIs [CHR 0xC9]]]
   \<and> fst (add ''/'' [CHR 0xFF] ''/x'' 0 initial_state) = Unmodelled"
  by code_simp

lemma any_route_Return:
  assumes "any_route pp p h st = (Return a, st1)"
  shows "\<exists>re. getPathRegExp pp p = Return re \<and> a = length (listeners st)
           \<and> st1 = st\<lparr>listeners := listeners st @
                        [\<lparr>pathAsRegExp = re, preConditions = [], routeHandler = Some h\<rparr>],
                      handlers := handlers st @ [Listener a]\<rparr>"
  using assms
  by (auto simp: any_route_def replaceHandler_def Let_def split: result.splits)

lemma wrapped_no_preconditions:
  assumes "a < length (listeners st)" "preConditions (listeners st ! a) = []"
    "routeHandler (listeners st ! a) = Some h"
  shows "wrappedRouteHandler env rq a st =
     (case exec (pathAsRegExp (listeners st ! a)) (path rq) of
        None \<Rightarrow> Some (Return UNHANDLED, st)
      | Some mr \<Rightarrow> Some (handler_response (handler_fn env h rq (st\<lparr>params := groups mr\<rparr>))))"
  using assms
  by (simp add: wrappedRouteHandler_def test_def preConditions_loop.simps [of env rq a 0]
           split: option.splits)

lemma wrapped_method_precondition:
  assumes "a < length (listeners st)" "preConditions (listeners st ! a) = [MethodIs M]"
    "routeHandler (listeners st ! a) = Some h"
  shows "wrappedRouteHandler env rq a st =
     (if req_method rq \<noteq> M then Some (Return UNHANDLED, st)
      else case exec (pathAsRegExp (listeners st ! a)) (path rq) of
        None \<Rightarrow> Some (Return UNHANDLED, st)
      | Some mr \<Rightarrow> Some (handler_response (handler_fn env h rq (st\<lparr>params := groups mr\<rparr>))))"
proof -
  have l1: "preConditions_loop env rq a (Suc 0) st = Some (Return True, st)"
    using assms by (subst preConditions_loop.simps) simp
  have l0: "preConditions_loop env rq a 0 st =
     (if req_method rq = M then Some (Return True, st) else Some (Return False, st))"
    using assms l1 by (subst preConditions_loop.simps) simp
  show ?thesis using assms
    by (simp add: wrappedRouteHandler_def test_def l0 split: option.splits)
qed

lemma get_x_registered:
  "add ''/'' ''GET'' ''/x'' 0 initial_state =
     (Return 0, \<lparr>handlers = [Listener 0],
                 listeners = [\<lparr>pathAsRegExp = [Bol, Chr CHR ''/'', Chr CHR ''x'', Eol],
                               preConditions = [MethodIs ''GET''], routeHandler = Some 0\<rparr>],
                 params = None, responseStatus = 200, responseHeaders = [],
                 externallyHandled = False\<rparr>)"
  by code_simp

text \<open>
  C5, as the claim states it, fails: the listener that \<^verbatim>\<open>add('GET', '/x', h)\<close>
  registers answers a request \<^verbatim>\<open>GET /x\<close> and returns \<open>UNHANDLED\<close> for a request
  whose method is \<^verbatim>\<open>get\<close>, which differs from the registered method in letter case
  only.  The method of the request is compared as it is.
\<close>

theorem request_method_is_not_uppercased:
  "toUpperCase ''get'' = toUpperCase ''GET''
   \<and> fst (add ''/'' ''GET'' ''/x'' 0 initial_state) = Return 0
   \<and> map_option fst (wrappedRouteHandler ok_env (request_to ''GET'' ''/x'') 0
                        (snd (add ''/'' ''GET'' ''/x'' 0 initial_state)))
       = Some (Return (RESULT ''ok''))
   \<and> map_option fst (wrappedRouteHandler ok_env (request_to ''get'' ''/x'') 0
                        (snd (add ''/'' ''GET'' ''/x'' 0 initial_state)))
       = Some (Return UNHANDLED)"
  by code_simp

text \<open>
  C5, amended.  \<^verbatim>\<open>add(m, path, handler)\<close> fails as \<^verbatim>\<open>any(path, handler)\<close> fails, and
  otherwise registers the listener that \<^verbatim>\<open>any(path, handler)\<close> registers, with one
  precondition appended: the method of the request, as it was received, equals \<open>m\<close>
  in upper case (\<open>M\<close>, for every \<open>m\<close> whose upper case is a string of 8-bit code
  units).  So two registered methods that differ in letter case only give the
  same route; the listener returns \<open>UNHANDLED\<close>, and changes nothing, for a request
  of another method; and for a request of that method it does what the listener of
  \<^verbatim>\<open>any\<close> does: \<open>UNHANDLED\<close> when the pattern rejects the path, and otherwise the
  handler is called with the captured parameters.  A route registered for \<^verbatim>\<open>GET\<close>
  returns \<open>UNHANDLED\<close> for a \<^verbatim>\<open>POST\<close> request to the same path.
\<close>

theorem add_is_any_with_method_precondition:
  "(any_route pp p h st = (Throw e, st') \<longrightarrow> add pp mth p h st = (Throw e, st'))
   \<and> (any_route pp p h st = (Return a, st1) \<and> toUpperCase mth = Some M \<longrightarrow>
        (let st2 = addPreCondition a (MethodIs M) st1 in
           add pp mth p h st = (Return a, st2)
         \<and> handlers st2 = handlers st1
         \<and> listeners st2 = (listeners st1)
              [a := (listeners st1 ! a)\<lparr>preConditions := [MethodIs M]\<rparr>]
         \<and> wrappedRouteHandler env rq a st1 =
             (case exec (pathAsRegExp (listeners st1 ! a)) (path rq) of
                None \<Rightarrow> Some (Return UNHANDLED, st1)
              | Some mr \<Rightarrow>
                  Some (handler_response (handler_fn env h rq (st1\<lparr>params := groups mr\<rparr>))))
         \<and> wrappedRouteHandler env rq a st2 =
             (if req_method rq \<noteq> M then Some (Return UNHANDLED, st2)
              else case exec (pathAsRegExp (listeners st1 ! a)) (path rq) of
                None \<Rightarrow> Some (Return UNHANDLED, st2)
              | Some mr \<Rightarrow>
                  Some (handler_response (handler_fn env h rq (st2\<lparr>params := groups mr\<rparr>))))))
   \<and> (toUpperCase mth = Some M \<and> toUpperCase mth' = Some M \<longrightarrow>
        add pp mth p h st = add pp mth' p h st)
   \<and> wrappedRouteHandler env (request_to ''POST'' ''/x'') 0 (snd (get ''/'' ''/x'' 0 initial_state))
        = Some (Return UNHANDLED, snd (get ''/'' ''/x'' 0 initial_state))"
proof -
  have A: "any_route pp p h st = (Throw e, st') \<longrightarrow> add pp mth p h st = (Throw e, st')"
    by (simp add: add_def)
  have B: "any_route pp p h st = (Return a, st1) \<and> toUpperCase mth = Some M \<longrightarrow>
        (let st2 = addPreCondition a (MethodIs M) st1 in
           add pp mth p h st = (Return a, st2)
         \<and> handlers st2 = handlers st1
         \<and> listeners st2 = (listeners st1)
              [a := (listeners st1 ! a)\<lparr>preConditions := [MethodIs M]\<rparr>]
         \<and> wrappedRouteHandler env rq a st1 =
             (case exec (pathAsRegExp (listeners st1 ! a)) (path rq) of
                None \<Rightarrow> Some (Return UNHANDLED, st1)
              | Some mr \<Rightarrow>
                  Some (handler_response (handler_fn env h rq (st1\<lparr>params := groups mr\<rparr>))))
         \<and> wrappedRouteHandler env rq a st2 =
             (if req_method rq \<noteq> M then Some (Return UNHANDLED, st2)
              else case exec (pathAsRegExp (listeners st1 ! a)) (path rq) of
                None \<Rightarrow> Some (Return UNHANDLED, st2)
              | Some mr \<Rightarrow>
                  Some (handler_response (handler_fn env h rq (st2\<lparr>params := groups mr\<rparr>)))))"
  proof
    assume both: "any_route pp p h st = (Return a, st1) \<and> toUpperCase mth = Some M"
    then have reg: "any_route pp p h st = (Return a, st1)" and up: "toUpperCase mth = Some M"
      by simp_all
    from any_route_Return [OF reg] obtain re where
      a: "a = length (listeners st)" and
      st1: "st1 = st\<lparr>listeners := listeners st @
                        [\<lparr>pathAsRegExp = re, preConditions = [], routeHandler = Some h\<rparr>],
                      handlers := handlers st @ [Listener a]\<rparr>"
      by blast
    define st2 where "st2 = addPreCondition a (MethodIs M) st1"
    have lt: "a < length (listeners st1)" by (simp add: st1 a)
    have l1: "listeners st1 ! a = \<lparr>pathAsRegExp = re, preConditions = [], routeHandler = Some h\<rparr>"
      by (simp add: st1 a)
    have ls2: "listeners st2 = (listeners st1)
              [a := (listeners st1 ! a)\<lparr>preConditions := [MethodIs M]\<rparr>]"
      using lt by (simp add: st2_def addPreCondition_def l1)
    have hs2: "handlers st2 = handlers st1"
      by (simp add: st2_def addPreCondition_def)
    have l2: "listeners st2 ! a = \<lparr>pathAsRegExp = re,
                 preConditions = [MethodIs M], routeHandler = Some h\<rparr>"
      using lt by (simp add: ls2 l1)
    have lt2: "a < length (listeners st2)" using lt by (simp add: ls2)
    have w1: "wrappedRouteHandler env rq a st1 =
             (case exec (pathAsRegExp (listeners st1 ! a)) (path rq) of
                None \<Rightarrow> Some (Return UNHANDLED, st1)
              | Some mr \<Rightarrow>
                  Some (handler_response (handler_fn env h rq (st1\<lparr>params := groups mr\<rparr>))))"
      using wrapped_no_preconditions [OF lt, of h env rq] by (simp add: l1)
    have w2: "wrappedRouteHandler env rq a st2 =
             (if req_method rq \<noteq> M then Some (Return UNHANDLED, st2)
              else case exec (pathAsRegExp (listeners st1 ! a)) (path rq) of
                None \<Rightarrow> Some (Return UNHANDLED, st2)
              | Some mr \<Rightarrow>
                  Some (handler_response (handler_fn env h rq (st2\<lparr>params := groups mr\<rparr>))))"
      using wrapped_method_precondition [OF lt2, of M h env rq]
      by (simp add: l2 l1)
    have "add pp mth p h st = (Return a, st2)"
      by (simp add: add_def reg up st2_def)
    then show "let st2 = addPreCondition a (MethodIs M) st1 in
           add pp mth p h st = (Return a, st2)
         \<and> handlers st2 = handlers st1
         \<and> listeners st2 = (listeners st1)
              [a := (listeners st1 ! a)\<lparr>preConditions := [MethodIs M]\<rparr>]
         \<and> wrappedRouteHandler env rq a st1 =
             (case exec (pathAsRegExp (listeners st1 ! a)) (path rq) of
                None \<Rightarrow> Some (Return UNHANDLED, st1)
              | Some mr \<Rightarrow>
                  Some (handler_response (handler_fn env h rq (st1\<lparr>params := groups mr\<rparr>))))
         \<and> wrappedRouteHandler env rq a st2 =
             (if req_method rq \<noteq> M then Some (Return UNHANDLED, st2)
              else case exec (pathAsRegExp (listeners st1 ! a)) (path rq) of
                None \<Rightarrow> Some (Return UNHANDLED, st2)
              | Some mr \<Rightarrow>
                  Some (handler_response (handler_fn env h rq (st2\<lparr>params := groups mr\<rparr>))))"
      using hs2 ls2 w1 w2 unfolding st2_def [symmetric] Let_def by blast
  qed
  have C: "toUpperCase mth = Some M \<and> toUpperCase mth' = Some M \<longrightarrow>
             add pp mth p h st = add pp mth' p h st"
    by (auto simp: add_def split: prod.splits result.splits)
  have D: "wrappedRouteHandler env (request_to ''POST'' ''/x'') 0 (snd (get ''/'' ''/x'' 0 initial_state))
        = Some (Return UNHANDLED, snd (get ''/'' ''/x'' 0 initial_state))"
    using wrapped_method_precondition [of 0 "snd (get ''/'' ''/x'' 0 initial_state)" "''GET''" 0
        env "request_to ''POST'' ''/x''"]
    by (simp add: get_def get_x_registered request_to_def)
  show ?thesis using A B C D by blast
qed

theorem add_is_any_with_method_precondition_witness:
  "any_route ''/'' ''/x'' 0 initial_state
     = (Return 0, \<lparr>handlers = [Listener 0],
                   listeners = [\<lparr>pathAsRegExp = [Bol, Chr CHR ''/'', Chr CHR ''x'', Eol],
                                 preConditions = [], routeHandler = Some 0\<rparr>],
                   params = None, responseStatus = 200, responseHeaders = [],
                   externallyHandled = False\<rparr>)
   \<and> toUpperCase ''get'' = toUpperCase ''GET''
   \<and> add ''/'' ''get'' ''/x'' 0 initial_state = add ''/'' ''GET'' ''/x'' 0 initial_state
   \<and> add ''/'' ''get'' ''/x'' 0 initial_state
       = (Return 0, \<lparr>handlers = [Listener 0],
                 listeners = [\<lparr>pathAsRegExp = [Bol, Chr CHR ''/'', Chr CHR ''x'', Eol],
                               preConditions = [MethodIs ''GET''], routeHandler = Some 0\<rparr>],
                 params = None, responseStatus = 200, responseHeaders = [],
                 externallyHandled = False\<rparr>)
   \<and> wrappedRouteHandler ok_env (request_to ''POST'' ''/x'') 0
        (snd (add ''/'' ''get'' ''/x'' 0 initial_state))
       = Some (Return UNHANDLED, snd (add ''/'' ''get'' ''/x'' 0 initial_state))"
proof -
  let ?st1 = "\<lparr>handlers = [Listener 0],
                   listeners = [\<lparr>pathAsRegExp = [Bol, Chr CHR ''/'', Chr CHR ''x'', Eol],
                                 preConditions = [], routeHandler = Some 0\<rparr>],
                   params = None, responseStatus = 200, responseHeaders = [],
                   externallyHandled = False\<rparr>"
  have reg: "any_route ''/'' ''/x'' 0 initial_state = (Return 0, ?st1)"
    by code_simp
  have up: "toUpperCase ''get'' = toUpperCase ''GET''"
    by code_simp
  have upG: "toUpperCase ''get'' = Some ''GET''"
    by code_simp
  have upG': "toUpperCase ''GET'' = Some ''GET''"
    by code_simp
  note inst = add_is_any_with_method_precondition
    [of "''/''" "''/x''" 0 initial_state _ _ "''get''" 0 ?st1 "''GET''" ok_env
        "request_to ''POST'' ''/x''" "''GET''"]
  have same: "add ''/'' ''get'' ''/x'' 0 initial_state = add ''/'' ''GET'' ''/x'' 0 initial_state"
    using inst upG upG' by blast
  have val: "add ''/'' ''get'' ''/x'' 0 initial_state
       = (Return 0, addPreCondition 0 (MethodIs ''GET'') ?st1)"
    using inst reg upG unfolding Let_def by blast
  have snd_val: "snd (add ''/'' ''get'' ''/x'' 0 initial_state)
                  = addPreCondition 0 (MethodIs ''GET'') ?st1"
    using val by simp
  have w: "wrappedRouteHandler ok_env (request_to ''POST'' ''/x'') 0
             (addPreCondition 0 (MethodIs ''GET'') ?st1)
           = Some (Return UNHANDLED, addPreCondition 0 (MethodIs ''GET'') ?st1)"
    using inst reg upG unfolding Let_def by (simp add: request_to_def)
  have w': "wrappedRouteHandler ok_env (request_to ''POST'' ''/x'') 0
              (snd (add ''/'' ''get'' ''/x'' 0 initial_state))
            = Some (Return UNHANDLED, snd (add ''/'' ''get'' ''/x'' 0 initial_state))"
    using w by (simp only: snd_val)
  have val': "add ''/'' ''get'' ''/x'' 0 initial_state
       = (Return 0, \<lparr>handlers = [Listener 0],
                 listeners = [\<lparr>pathAsRegExp = [Bol, Chr CHR ''/'', Chr CHR ''x'', Eol],
                               preConditions = [MethodIs ''GET''], routeHandler = Some 0\<rparr>],
                 params = None, responseStatus = 200, responseHeaders = [],
                 externallyHandled = False\<rparr>)"
    using val by (simp add: upG addPreCondition_def)
  show ?thesis by (intro conjI reg up same val' w')
qed

section \<open>Redirects\<close>

lemma map_of_map_replace:
  "map_of (map (\<lambda>(k, v). if k = n then (k, x) else (k, v)) t) k'
     = (if k' = n then (if n \<in> fst ` set t then Some x else None) else map_of t k')"
  by (induction t) (fastforce simp: image_iff split: if_splits)+

lemma map_of_insert_index:
  "fst kv \<notin> fst ` set t \<Longrightarrow> map_of (insert_index n kv t) = (map_of t)(fst kv \<mapsto> snd kv)"
proof (induction t)
  case Nil
  then show ?case by (cases kv) simp
next
  case (Cons x xs)
  then have ne: "fst x \<noteq> fst kv" and rest: "fst kv \<notin> fst ` set xs" by auto
  show ?case
  proof (cases "\<exists>i. array_index (fst x) = Some i \<and> i < n")
    case True
    then have e: "insert_index n kv (x # xs) = x # insert_index n kv xs" by auto
    show ?thesis unfolding e using Cons.IH [OF rest] ne
      by (cases x) (auto simp: fun_eq_iff)
  next
    case False
    then have e: "insert_index n kv (x # xs) = kv # x # xs"
      by (auto split: option.splits)
    show ?thesis unfolding e by (cases kv; cases x) (simp add: fun_eq_iff)
  qed
qed

lemma map_of_assign_field: "map_of (assign_field t kv) = (map_of t)(fst kv \<mapsto> snd kv)"
proof (cases "fst kv \<in> fst ` set t")
  case True
  show ?thesis using True
    by (auto simp: assign_field_def map_of_map_replace fun_eq_iff)
next
  case False
  then have none: "map_of t (fst kv) = None" by (simp add: map_of_eq_None_iff)
  show ?thesis
  proof (cases "array_index (fst kv)")
    case None
    then show ?thesis using False none
      by (auto simp: assign_field_def fun_eq_iff map_add_def split: option.splits)
  next
    case (Some n)
    then show ?thesis using False map_of_insert_index [OF False, of n]
      by (simp add: assign_field_def)
  qed
qed

lemma lower_Location: "toLowerCase ''Location'' = ''location''"
  by code_simp

lemma Headers_set_Location:
  "Headers_set hs ''Location'' [HString v] = Return (assign_field hs (''location'', [v]))"
  by (simp add: Headers_set_def header_values_def lower_Location)

lemma Headers_get_Location:
  "Headers_get (assign_field hs (''location'', [v])) n
     = (if toLowerCase n = ''location'' then Return (Some v) else Headers_get hs n)"
  by (simp add: Headers_get_def map_of_assign_field)

lemma setHeader_Location:
  "setHeader ''Location'' v st
     = Return (st\<lparr>responseHeaders := assign_field (responseHeaders st) (''location'', [v])\<rparr>)"
  by (simp add: setHeader_def set_responseHeader_def lower_Location Headers_set_Location)

lemma Headers_examples:
  "Headers_set [] ''Content-Type'' [HString ''a'', HUndefined, HString ''b'']
     = Return [(''content-type'', [''a'', ''b''])]
   \<and> Headers_set [(''x'', [''1''])] ''X'' [HArray [''2'', ''3'']] = Return [(''x'', [''2'', ''3''])]
   \<and> Headers_get [(''x'', [''2'', ''3''])] ''X'' = Return (Some ''2'')
   \<and> Headers_get [(''x'', [''2'', ''3''])] ''y'' = Return None
   \<and> Headers_get [(''x'', [])] ''x'' = Throw TypeError
   \<and> Headers_get [] ''Constructor'' = Throw TypeError
   \<and> Headers_add [(''x'', [''1''])] ''X'' [HString ''2''] = Return [(''x'', [''1'', ''2''])]
   \<and> Headers_add [] ''constructor'' [HString ''2''] = Throw TypeError
   \<and> Headers_set [(''7'', [''a'']), (''x'', [''b''])] ''10'' [HString ''c'']
       = Return [(''7'', [''a'']), (''10'', [''c'']), (''x'', [''b''])]
   \<and> Headers_set [(''7'', [''a'']), (''x'', [''b''])] ''07'' [HString ''c'']
       = Return [(''7'', [''a'']), (''x'', [''b'']), (''07'', [''c''])]"
  by code_simp

text \<open>
  C9.  \<^verbatim>\<open>redirect\<close> sets the status 307, \<^verbatim>\<open>redirectPermanent\<close> 308 and
  \<^verbatim>\<open>redirectPermanentCompat\<close> 301, and each of them 303 instead when the method of
  the request is \<^verbatim>\<open>PUT\<close> or \<^verbatim>\<open>POST\<close>; the response header \<^verbatim>\<open>Location\<close> is set to the
  given location (the record of the response headers holds the one value at
  \<^verbatim>\<open>location\<close>, and \<^verbatim>\<open>get\<close> gives it for the name in every letter case), every other
  header is as it was, and so is the rest of the state.
\<close>

theorem redirect_status_and_location:
  "redirect location rq st =
     Return (st\<lparr>responseStatus := (if req_method rq = ''PUT'' \<or> req_method rq = ''POST'' then 303 else 307),
                responseHeaders := assign_field (responseHeaders st) (''location'', [location])\<rparr>)
   \<and> redirectPermanent location rq st =
     Return (st\<lparr>responseStatus := (if req_method rq = ''PUT'' \<or> req_method rq = ''POST'' then 303 else 308),
                responseHeaders := assign_field (responseHeaders st) (''location'', [location])\<rparr>)
   \<and> redirectPermanentCompat location rq st =
     Return (st\<lparr>responseStatus := (if req_method rq = ''PUT'' \<or> req_method rq = ''POST'' then 303 else 301),
                responseHeaders := assign_field (responseHeaders st) (''location'', [location])\<rparr>)
   \<and> Headers_set (responseHeaders st) ''Location'' [HString location]
       = Return (assign_field (responseHeaders st) (''location'', [location]))
   \<and> Headers_get (assign_field (responseHeaders st) (''location'', [location])) n
       = (if toLowerCase n = ''location'' then Return (Some location)
          else Headers_get (responseHeaders st) n)"
  by (simp add: redirect_def redirectPermanent_def redirectPermanentCompat_def setHeader_Location
        status_set_def Headers_get_Location Headers_set_Location)

section \<open>Decoration by extensions\<close>

lemma map_of_foldl_assign_field:
  "map_of (foldl assign_field t src) = map_of t ++ map_of (rev src)"
proof (induction src arbitrary: t)
  case Nil
  then show ?case by simp
next
  case (Cons kv src)
  show ?case
    by (rule ext) (simp add: Cons.IH map_of_assign_field map_add_def split: option.splits)
qed

lemma last_source:
  "map_of (foldl (foldl assign_field) t srcs) k =
     (case List.map_filter (\<lambda>src. map_of (rev src) k) (rev srcs) of
        [] \<Rightarrow> map_of t k
      | v # _ \<Rightarrow> Some v)"
proof (induction srcs rule: rev_induct)
  case Nil
  then show ?case by (simp add: List.map_filter_simps)
next
  case (snoc src srcs)
  show ?case
  proof (cases "map_of (rev src) k")
    case None
    then show ?thesis using snoc
      by (simp add: map_of_foldl_assign_field List.map_filter_simps map_add_def)
  next
    case (Some v)
    then show ?thesis
      by (simp add: map_of_foldl_assign_field List.map_filter_simps map_add_def)
  qed
qed

lemma last_writer:
  "map_of (foldl (foldl assign_field) t (filter_Boolean rs)) k =
     (case last_written rs k of None \<Rightarrow> map_of t k | Some v \<Rightarrow> Some v)"
  unfolding last_source last_written_def by (simp split: list.splits)

lemma assign_fields_ok:
  "list_all (\<lambda>kv. fst kv \<noteq> ''__proto__'') src \<Longrightarrow> list_all (\<lambda>kv. fst kv \<notin> set ro) src \<Longrightarrow>
     assign_fields ro t src = (Return (), foldl assign_field t src)"
  by (induction src arbitrary: t) simp_all

lemma assign_fields_fail:
  "list_all (\<lambda>kv. fst kv \<noteq> ''__proto__'') src \<Longrightarrow> \<not> list_all (\<lambda>kv. fst kv \<notin> set ro) src \<Longrightarrow>
     fst (assign_fields ro t src) = Throw TypeError"
  by (induction src arbitrary: t) auto

lemma Object_assign_ok:
  "list_all (list_all (\<lambda>kv. fst kv \<noteq> ''__proto__'')) srcs \<Longrightarrow>
   list_all (list_all (\<lambda>kv. fst kv \<notin> set ro)) srcs \<Longrightarrow>
     Object_assign ro t srcs = (Return (), foldl (foldl assign_field) t srcs)"
  by (induction srcs arbitrary: t) (simp_all add: assign_fields_ok)

lemma Object_assign_fail:
  "list_all (list_all (\<lambda>kv. fst kv \<noteq> ''__proto__'')) srcs \<Longrightarrow>
   \<not> list_all (list_all (\<lambda>kv. fst kv \<notin> set ro)) srcs \<Longrightarrow>
     fst (Object_assign ro t srcs) = Throw TypeError"
proof (induction srcs arbitrary: t)
  case Nil
  then show ?case by simp
next
  case (Cons src srcs)
  have p: "list_all (\<lambda>kv. fst kv \<noteq> ''__proto__'') src"
    and ps: "list_all (list_all (\<lambda>kv. fst kv \<noteq> ''__proto__'')) srcs"
    using Cons.prems(1) by simp_all
  show ?case
  proof (cases "list_all (\<lambda>kv. fst kv \<notin> set ro) src")
    case True
    then have "\<not> list_all (list_all (\<lambda>kv. fst kv \<notin> set ro)) srcs" using Cons.prems(2) by simp
    then show ?thesis using Cons.IH [OF ps] True p by (simp add: assign_fields_ok)
  next
    case False
    obtain r t1 where a: "assign_fields ro t src = (r, t1)" by (cases "assign_fields ro t src")
    then have "r = Throw TypeError" using assign_fields_fail [OF p False, of t] by simp
    then show ?thesis using a by simp
  qed
qed

lemma Object_assign_results:
  "ordinary_names rs \<Longrightarrow>
     fst (Object_assign ro t (filter_Boolean rs))
       = (if assignable ro rs then Return () else Throw TypeError)"
  "ordinary_names rs \<Longrightarrow> assignable ro rs \<Longrightarrow>
     Object_assign ro t (filter_Boolean rs)
       = (Return (), foldl (foldl assign_field) t (filter_Boolean rs))"
  using Object_assign_ok [of "filter_Boolean rs" ro t] Object_assign_fail [of "filter_Boolean rs" ro t]
  by (auto simp: assignable_def ordinary_names_def)

lemma call_all_append:
  "call_all (fs @ gs) t w =
     (let (rs1, w1) = call_all fs t w; (rs2, w2) = call_all gs t w1 in (rs1 @ rs2, w2))"
  by (induction fs arbitrary: w) (auto simp: Let_def split: prod.splits)

lemma exec_append:
  "execFunctionOnArray (xs @ ys) f t w =
     (let (rs1, w1) = execFunctionOnArray xs f t w;
          (rs2, w2) = execFunctionOnArray ys f t w1
      in (rs1 @ rs2, w2))"
  by (simp add: execFunctionOnArray_def List.map_filter_def call_all_append)

lemma exec_single:
  "execFunctionOnArray [e] f t w =
     (case f e of None \<Rightarrow> ([], w) | Some h \<Rightarrow> (let (r, w1) = h t w in ([r], w1)))"
  by (simp add: execFunctionOnArray_def List.map_filter_def split: option.splits prod.splits)

lemma decorated:
  assumes "ordinary_names rs" "assignable ro rs"
  shows "\<exists>t'. Object_assign ro t (filter_Boolean rs) = (Return (), t')
           \<and> (\<forall>k. map_of t' k = (case last_written rs k of None \<Rightarrow> map_of t k | Some v \<Rightarrow> Some v))"
  using Object_assign_results(2) [OF assms, of t] last_writer [of t rs] by simp

lemma decoration_examples:
  "Object_assign function_read_only [(''closed'', 0 :: nat)] [[(''greet'', 1)], [(''name'', 2)], [(''x'', 3)]]
     = (Throw TypeError, [(''closed'', 0), (''greet'', 1)])
   \<and> Object_assign routerContext_read_only [(''prefix'', 0 :: nat)] [[(''greet'', 1)], [(''name'', 2)]]
     = (Return (), [(''prefix'', 0), (''greet'', 1), (''name'', 2)])
   \<and> Object_assign messageContext_read_only [(''path'', 0 :: nat)] [[(''path'', 1), (''bodyAsBuffer'', 2)]]
     = (Throw TypeError, [(''path'', 1)])
   \<and> Object_assign routerContext_read_only [(''prefix'', 0 :: nat)] [[(''__proto__'', 1)]]
     = (Unmodelled, [(''prefix'', 0)])"
  by code_simp

text \<open>
  C8, as the claim states it, fails: not every field that two extensions return ends
  with the value of the later one.  A message context has the getter
  \<^verbatim>\<open>isExternallyHandled\<close> and no setter for it; when two extensions return a field of
  that name, the hooks of both are called (twice each) and the assignment throws a
  \<^verbatim>\<open>TypeError\<close>: the decorated context has the value of neither.
\<close>

theorem getter_field_is_not_overwritten:
  "decorate_MessageContext [(''path'', 7), (''isExternallyHandled'', 0)]
     [field_setter ''first'' ''isExternallyHandled'' 1,
      field_setter ''second'' ''isExternallyHandled'' 2] []
   = (Throw TypeError, [(''path'', 7), (''isExternallyHandled'', 0)],
      [''first'', ''second'', ''first'', ''second''])"
  by code_simp

text \<open>
  C8, amended.  Decorating a target with a list of extensions calls the hook of the
  extensions that define it, in installation order (the hooks of a list \<open>xs @ ys\<close> are
  those of \<open>xs\<close> and then those of \<open>ys\<close>, an extension without the hook is skipped),
  and assigns the partial objects that were returned to the target, in that order.
  For results without a field named \<^verbatim>\<open>__proto__\<close>: the assignment succeeds when no
  returned field has a name that the target does not let assign (\<^verbatim>\<open>length\<close>,
  \<^verbatim>\<open>name\<close>, \<^verbatim>\<open>arguments\<close> and \<^verbatim>\<open>caller\<close> of the application, \<^verbatim>\<open>bodyAsBuffer\<close> and
  \<^verbatim>\<open>isExternallyHandled\<close> of a message context), and throws a \<^verbatim>\<open>TypeError\<close> otherwise;
  when it succeeds, a field of the decorated object has the value given by the last
  result that has the field, and the value of the target when no result has it, and
  the world is the one that the hooks have left.  Installing an extension that
  decorates the application with \<^verbatim>\<open>greet = 1\<close>, one that defines no hook and one that
  decorates with \<^verbatim>\<open>greet = 2\<close> leaves \<^verbatim>\<open>greet = 2\<close>.
\<close>

theorem decoration_last_writer_wins:
  "(ordinary_names rs \<longrightarrow>
      fst (Object_assign ro t (filter_Boolean rs))
        = (if assignable ro rs then Return () else Throw TypeError))
   \<and> (ordinary_names (fst (execFunctionOnArray exts decorateApplication app w))
        \<and> assignable function_read_only (fst (execFunctionOnArray exts decorateApplication app w)) \<longrightarrow>
        (\<exists>app'. decorate_Application app exts w
                   = (Return (), app', snd (execFunctionOnArray exts decorateApplication app w))
           \<and> (\<forall>k. map_of app' k =
                 (case last_written (fst (execFunctionOnArray exts decorateApplication app w)) k of
                    None \<Rightarrow> map_of app k | Some v \<Rightarrow> Some v))))
   \<and> (ordinary_names (fst (execFunctionOnArray exts decorateRouterContext router
                          (doLifecycle exts decorateRouterContext router w)))
        \<and> assignable ro (fst (execFunctionOnArray exts decorateRouterContext router
                          (doLifecycle exts decorateRouterContext router w))) \<longrightarrow>
        (\<exists>router'. decorate_RouterContext ro router exts w
                   = (Return (), router', snd (execFunctionOnArray exts decorateRouterContext router
                          (doLifecycle exts decorateRouterContext router w)))
           \<and> (\<forall>k. map_of router' k =
                 (case last_written (fst (execFunctionOnArray exts decorateRouterContext router
                          (doLifecycle exts decorateRouterContext router w))) k of
                    None \<Rightarrow> map_of router k | Some v \<Rightarrow> Some v))))
   \<and> (ordinary_names (fst (execFunctionOnArray exts decorateMessageContext message
                          (doLifecycle exts decorateMessageContext message w)))
        \<and> assignable messageContext_read_only (fst (execFunctionOnArray exts decorateMessageContext message
                          (doLifecycle exts decorateMessageContext message w))) \<longrightarrow>
        (\<exists>message'. decorate_MessageContext message exts w
                   = (Return (), message', snd (execFunctionOnArray exts decorateMessageContext message
                          (doLifecycle exts decorateMessageContext message w)))
           \<and> (\<forall>k. map_of message' k =
                 (case last_written (fst (execFunctionOnArray exts decorateMessageContext message
                          (doLifecycle exts decorateMessageContext message w))) k of
                    None \<Rightarrow> map_of message k | Some v \<Rightarrow> Some v))))
   \<and> execFunctionOnArray (xs @ ys) f t w =
       (let (rs1, w1) = execFunctionOnArray xs f t w;
            (rs2, w2) = execFunctionOnArray ys f t w1
        in (rs1 @ rs2, w2))
   \<and> execFunctionOnArray [e] f t w =
       (case f e of None \<Rightarrow> ([], w) | Some h \<Rightarrow> (let (r, w1) = h t w in ([r], w1)))
   \<and> (case installs [greeter ''first'' 1, silent, greeter ''second'' 2]
              ([(''greet'', 0), (''x'', 5)], [], [])
       of (r, app', es, seen) \<Rightarrow> (r, app', map name es, seen))
     = (Return (), [(''greet'', 2), (''x'', 5)], [''first'', ''silent'', ''second''],
        [''first'', ''second''])"
proof -
  have A: "ordinary_names (fst (execFunctionOnArray exts decorateApplication app w))
        \<and> assignable function_read_only (fst (execFunctionOnArray exts decorateApplication app w)) \<longrightarrow>
        (\<exists>app'. decorate_Application app exts w
                   = (Return (), app', snd (execFunctionOnArray exts decorateApplication app w))
           \<and> (\<forall>k. map_of app' k =
                 (case last_written (fst (execFunctionOnArray exts decorateApplication app w)) k of
                    None \<Rightarrow> map_of app k | Some v \<Rightarrow> Some v)))"
  proof
    assume h: "ordinary_names (fst (execFunctionOnArray exts decorateApplication app w))
        \<and> assignable function_read_only (fst (execFunctionOnArray exts decorateApplication app w))"
    obtain rs w1 where e: "execFunctionOnArray exts decorateApplication app w = (rs, w1)"
      by (cases "execFunctionOnArray exts decorateApplication app w")
    obtain t' where t: "Object_assign function_read_only app (filter_Boolean rs) = (Return (), t')"
      "\<forall>k. map_of t' k = (case last_written rs k of None \<Rightarrow> map_of app k | Some v \<Rightarrow> Some v)"
      using decorated [where ro = function_read_only and rs = rs and t = app] h e by auto
    have "decorate_Application app exts w = (Return (), t', w1)"
      by (simp add: decorate_Application_def e t(1))
    then show "\<exists>app'. decorate_Application app exts w
                   = (Return (), app', snd (execFunctionOnArray exts decorateApplication app w))
           \<and> (\<forall>k. map_of app' k =
                 (case last_written (fst (execFunctionOnArray exts decorateApplication app w)) k of
                    None \<Rightarrow> map_of app k | Some v \<Rightarrow> Some v))"
      using t(2) e by simp
  qed
  have B: "ordinary_names (fst (execFunctionOnArray exts decorateRouterContext router
                          (doLifecycle exts decorateRouterContext router w)))
        \<and> assignable ro (fst (execFunctionOnArray exts decorateRouterContext router
                          (doLifecycle exts decorateRouterContext router w))) \<longrightarrow>
        (\<exists>router'. decorate_RouterContext ro router exts w
                   = (Return (), router', snd (execFunctionOnArray exts decorateRouterContext router
                          (doLifecycle exts decorateRouterContext router w)))
           \<and> (\<forall>k. map_of router' k =
                 (case last_written (fst (execFunctionOnArray exts decorateRouterContext router
                          (doLifecycle exts decorateRouterContext router w))) k of
                    None \<Rightarrow> map_of router k | Some v \<Rightarrow> Some v)))"
  proof
    define w0 where "w0 = doLifecycle exts decorateRouterContext router w"
    assume "ordinary_names (fst (execFunctionOnArray exts decorateRouterContext router
                          (doLifecycle exts decorateRouterContext router w)))
        \<and> assignable ro (fst (execFunctionOnArray exts decorateRouterContext router
                          (doLifecycle exts decorateRouterContext router w)))"
    then have h: "ordinary_names (fst (execFunctionOnArray exts decorateRouterContext router w0))
        \<and> assignable ro (fst (execFunctionOnArray exts decorateRouterContext router w0))"
      by (simp add: w0_def)
    obtain rs w1 where e: "execFunctionOnArray exts decorateRouterContext router w0 = (rs, w1)"
      by (cases "execFunctionOnArray exts decorateRouterContext router w0")
    obtain t' where t: "Object_assign ro router (filter_Boolean rs) = (Return (), t')"
      "\<forall>k. map_of t' k = (case last_written rs k of None \<Rightarrow> map_of router k | Some v \<Rightarrow> Some v)"
      using decorated [where ro = ro and rs = rs and t = router] h e by auto
    have "decorate_RouterContext ro router exts w = (Return (), t', w1)"
      by (simp add: decorate_RouterContext_def Let_def w0_def [symmetric] e t(1))
    then have "\<exists>router'. decorate_RouterContext ro router exts w
                   = (Return (), router', snd (execFunctionOnArray exts decorateRouterContext router w0))
           \<and> (\<forall>k. map_of router' k =
                 (case last_written (fst (execFunctionOnArray exts decorateRouterContext router w0)) k of
                    None \<Rightarrow> map_of router k | Some v \<Rightarrow> Some v))"
      using t(2) e by simp
    then show "\<exists>router'. decorate_RouterContext ro router exts w
                   = (Return (), router', snd (execFunctionOnArray exts decorateRouterContext router
                          (doLifecycle exts decorateRouterContext router w)))
           \<and> (\<forall>k. map_of router' k =
                 (case last_written (fst (execFunctionOnArray exts decorateRouterContext router
                          (doLifecycle exts decorateRouterContext router w))) k of
                    None \<Rightarrow> map_of router k | Some v \<Rightarrow> Some v))"
      unfolding w0_def .
  qed
  have C: "ordinary_names (fst (execFunctionOnArray exts decorateMessageContext message
                          (doLifecycle exts decorateMessageContext message w)))
        \<and> assignable messageContext_read_only (fst (execFunctionOnArray exts decorateMessageContext message
                          (doLifecycle exts decorateMessageContext message w))) \<longrightarrow>
        (\<exists>message'. decorate_MessageContext message exts w
                   = (Return (), message', snd (execFunctionOnArray exts decorateMessageContext message
                          (doLifecycle exts decorateMessageContext message w)))
           \<and> (\<forall>k. map_of message' k =
                 (case last_written (fst (execFunctionOnArray exts decorateMessageContext message
                          (doLifecycle exts decorateMessageContext message w))) k of
                    None \<Rightarrow> map_of message k | Some v \<Rightarrow> Some v)))"
  proof
    define w0 where "w0 = doLifecycle exts decorateMessageContext message w"
    assume "ordinary_names (fst (execFunctionOnArray exts decorateMessageContext message
                          (doLifecycle exts decorateMessageContext message w)))
        \<and> assignable messageContext_read_only (fst (execFunctionOnArray exts decorateMessageContext message
                          (doLifecycle exts decorateMessageContext message w)))"
    then have h: "ordinary_names (fst (execFunctionOnArray exts decorateMessageContext message w0))
        \<and> assignable messageContext_read_only
                    (fst (execFunctionOnArray exts decorateMessageContext message w0))"
      by (simp add: w0_def)
    obtain rs w1 where e: "execFunctionOnArray exts decorateMessageContext message w0 = (rs, w1)"
      by (cases "execFunctionOnArray exts decorateMessageContext message w0")
    obtain t' where t: "Object_assign messageContext_read_only message (filter_Boolean rs) = (Return (), t')"
      "\<forall>k. map_of t' k = (case last_written rs k of None \<Rightarrow> map_of message k | Some v \<Rightarrow> Some v)"
      using decorated [where ro = messageContext_read_only and rs = rs and t = message] h e by auto
    have "decorate_MessageContext message exts w = (Return (), t', w1)"
      by (simp add: decorate_MessageContext_def Let_def w0_def [symmetric] e t(1))
    then have "\<exists>message'. decorate_MessageContext message exts w
                   = (Return (), message', snd (execFunctionOnArray exts decorateMessageContext message w0))
           \<and> (\<forall>k. map_of message' k =
                 (case last_written (fst (execFunctionOnArray exts decorateMessageContext message w0)) k of
                    None \<Rightarrow> map_of message k | Some v \<Rightarrow> Some v))"
      using t(2) e by simp
    then show "\<exists>message'. decorate_MessageContext message exts w
                   = (Return (), message', snd (execFunctionOnArray exts decorateMessageContext message
                          (doLifecycle exts decorateMessageContext message w)))
           \<and> (\<forall>k. map_of message' k =
                 (case last_written (fst (execFunctionOnArray exts decorateMessageContext message
                          (doLifecycle exts decorateMessageContext message w))) k of
                    None \<Rightarrow> map_of message k | Some v \<Rightarrow> Some v))"
      unfolding w0_def .
  qed
  have D: "(case installs [greeter ''first'' 1, silent, greeter ''second'' 2]
              ([(''greet'', 0), (''x'', 5)], [], [])
       of (r, app', es, seen) \<Rightarrow> (r, app', map name es, seen))
     = (Return (), [(''greet'', 2), (''x'', 5)], [''first'', ''silent'', ''second''],
        [''first'', ''second''])"
    by code_simp
  show ?thesis
    using Object_assign_results(1) [where rs = rs and ro = ro and t = t] A B C D
      exec_append [of xs ys f t w] exec_single [of e f t w]
    by blast
qed

theorem decoration_last_writer_wins_witness:
  "ordinary_names
     (fst (execFunctionOnArray [greeter ''first'' 1, silent, greeter ''second'' 2]
             decorateApplication [(''greet'', 0), (''x'', 5)] []))
   \<and> assignable function_read_only
     (fst (execFunctionOnArray [greeter ''first'' 1, silent, greeter ''second'' 2]
             decorateApplication [(''greet'', 0), (''x'', 5)] []))
   \<and> (\<exists>app'. decorate_Application [(''greet'', 0), (''x'', 5)]
                 [greeter ''first'' 1, silent, greeter ''second'' 2] []
               = (Return (), app', [''first'', ''second''])
          \<and> map_of app' ''greet'' = Some 2 \<and> map_of app' ''x'' = Some 5)
   \<and> ordinary_names [Some [(''user'', 1 :: nat)], None, Some [(''bodyAsBuffer'', 2)]]
   \<and> fst (Object_assign messageContext_read_only [(''path'', 7)]
            (filter_Boolean [Some [(''user'', 1)], None, Some [(''bodyAsBuffer'', 2 :: nat)]]))
       = Throw TypeError
   \<and> fst (Object_assign routerContext_read_only [(''path'', 7)]
            (filter_Boolean [Some [(''user'', 1)], None, Some [(''bodyAsBuffer'', 2 :: nat)]]))
       = Return ()"
proof -
  let ?E = "[greeter ''first'' 1, silent, greeter ''second'' 2]"
  let ?A = "[(''greet'', 0 :: nat), (''x'', 5)]"
  let ?R = "[Some [(''user'', 1 :: nat)], None, Some [(''bodyAsBuffer'', 2)]]"
  have n: "ordinary_names (fst (execFunctionOnArray ?E decorateApplication ?A []))"
    by code_simp
  have h: "assignable function_read_only (fst (execFunctionOnArray ?E decorateApplication ?A []))"
    by code_simp
  have s: "snd (execFunctionOnArray ?E decorateApplication ?A []) = [''first'', ''second'']"
    by code_simp
  have g: "last_written (fst (execFunctionOnArray ?E decorateApplication ?A [])) ''greet'' = Some 2"
    by code_simp
  have x: "last_written (fst (execFunctionOnArray ?E decorateApplication ?A [])) ''x'' = None"
    by code_simp
  have m: "ordinary_names ?R" by code_simp
  have am: "\<not> assignable messageContext_read_only ?R" by code_simp
  have ar: "assignable routerContext_read_only ?R" by code_simp
  note inst = decoration_last_writer_wins [where exts = ?E and app = ?A and w = "[]"
      and ro = messageContext_read_only and rs = ?R and t = "[(''path'', 7)]"]
  note inst' = decoration_last_writer_wins [where ro = routerContext_read_only and rs = ?R
      and t = "[(''path'', 7)]"]
  obtain app' where a: "decorate_Application ?A ?E []
                          = (Return (), app', snd (execFunctionOnArray ?E decorateApplication ?A []))"
    and k: "\<forall>k. map_of app' k =
              (case last_written (fst (execFunctionOnArray ?E decorateApplication ?A [])) k of
                 None \<Rightarrow> map_of ?A k | Some v \<Rightarrow> Some v)"
    using inst n h by blast
  have kg: "map_of app' ''greet'' = Some 2" using k g by simp
  have kx: "map_of app' ''x'' = Some 5" using k x by simp
  have ex: "\<exists>app'. decorate_Application ?A ?E [] = (Return (), app', [''first'', ''second''])
          \<and> map_of app' ''greet'' = Some 2 \<and> map_of app' ''x'' = Some 5"
    using a kg kx unfolding s by blast
  have "fst (Object_assign messageContext_read_only [(''path'', 7)] (filter_Boolean ?R))
          = (if assignable messageContext_read_only ?R then Return () else Throw TypeError)"
    by (rule mp [OF conjunct1 [OF inst] m])
  then have o: "fst (Object_assign messageContext_read_only [(''path'', 7)] (filter_Boolean ?R))
                  = Throw TypeError"
    using am by simp
  have "fst (Object_assign routerContext_read_only [(''path'', 7)] (filter_Boolean ?R))
          = (if assignable routerContext_read_only ?R then Return () else Throw TypeError)"
    by (rule mp [OF conjunct1 [OF inst'] m])
  then have o': "fst (Object_assign routerContext_read_only [(''path'', 7)] (filter_Boolean ?R))
                  = Return ()"
    using ar by simp
  show ?thesis by (intro conjI n h ex m o o')
qed

section \<open>Content negotiation\<close>

lemma sequence_map_Return: "sequence (map Return xs) = Return xs"
  by (induction xs) auto

lemma sequence_ReturnD: "sequence rs = Return xs \<Longrightarrow> rs = map Return xs"
  by (induction rs arbitrary: xs) (auto split: result.splits)

lemma own_not_inherited:
  "map_of mimeTypeShorthands c = Some full \<Longrightarrow> c \<notin> set inherited_members"
  by (auto simp: mimeTypeShorthands_def inherited_members_def split: if_splits)

lemma resolve_eq:
  "resolve it = (if it \<in> set inherited_members then Throw TypeError
                 else Return (type_pair (expand it), it))"
proof (cases "map_of mimeTypeShorthands it")
  case None
  then have "it \<notin> fst ` set mimeTypeShorthands" by (simp add: map_of_eq_None_iff)
  then show ?thesis using None
    by (simp add: resolve_def in_mimeTypeShorthands_def expand_def)
next
  case (Some full)
  then have "it \<in> fst ` set mimeTypeShorthands" by (metis domI dom_map_of_conv_image_fst)
  then show ?thesis using Some own_not_inherited [OF Some]
    by (simp add: resolve_def in_mimeTypeShorthands_def expand_def)
qed

lemma resolve_all:
  "set types \<inter> set inherited_members = {} \<Longrightarrow>
     sequence (map resolve types) = Return (map (\<lambda>c. (type_pair (expand c), c)) types)"
  by (induction types) (auto simp: resolve_eq)

lemma resolve_some_inherited:
  "set types \<inter> set inherited_members \<noteq> {} \<Longrightarrow> sequence (map resolve types) = Throw TypeError"
proof (induction types)
  case Nil
  then show ?case by simp
next
  case (Cons c types)
  show ?case
  proof (cases "c \<in> set inherited_members")
    case True
    then show ?thesis by (simp add: resolve_eq)
  next
    case False
    then have "set types \<inter> set inherited_members \<noteq> {}" using Cons.prems by auto
    then show ?thesis using False Cons.IH by (simp add: resolve_eq)
  qed
qed

lemma scan_candidates_find:
  "scan_candidates (type_pair mt) (map (\<lambda>c. (type_pair (expand c), c)) types)
     = find (entry_matches mt) types"
  by (induction types) (auto simp: entry_matches_def)

lemma find_None_list_ex: "find P xs = None \<longleftrightarrow> \<not> list_ex P xs"
  by (induction xs) auto


lemma walk_entries_spec:
  "map mimeType es = map Str mts \<Longrightarrow>
   walk_entries es types (map (\<lambda>c. (type_pair (expand c), c)) types)
     = Return (accepts_spec mts types)"
proof (induction es arbitrary: mts)
  case Nil
  then show ?case by (simp add: accepts_spec_def)
next
  case (Cons e es)
  then obtain mt mts' where mts: "mts = mt # mts'" and e: "mimeType e = Str mt"
    and rest: "map mimeType es = map Str mts'"
    by (cases mts) auto
  show ?case
  proof (cases "mt = ''*/*''")
    case True
    then show ?thesis by (simp add: e mts accepts_spec_def)
  next
    case False
    show ?thesis
    proof (cases "find (entry_matches mt) types")
      case None
      then have "\<not> list_ex (entry_matches mt) types" by (simp add: find_None_list_ex)
      then show ?thesis using None False Cons.IH [OF rest]
        by (simp add: e mts accepts_spec_def scan_candidates_find)
    next
      case (Some v)
      then have "list_ex (entry_matches mt) types"
        using find_None_list_ex [of "entry_matches mt" types] by auto
      then show ?thesis using Some False
        by (simp add: e mts accepts_spec_def scan_candidates_find)
    qed
  qed
qed

lemma accepts_by_spec:
  assumes "calc header = Return es" "map mimeType es = map Str mts"
    "types \<noteq> []" "set types \<inter> set inherited_members = {}"
  shows "accepts header types = Return (accepts_spec mts types)"
  using assms by (simp add: accepts_def resolve_all walk_entries_spec)

lemma calc_sorted:
  assumes "calc header = Return es"
  shows "\<exists>es0. sequence (map parse_entry (split CHR '','' (case header of None \<Rightarrow> [] | Some h \<Rightarrow> h))) = Return es0
       \<and> list_all (\<lambda>e. q_number e \<noteq> None) es0
       \<and> es = sort_key (\<lambda>e. - the (q_number e)) es0"
  using assms by (auto simp: calc_def split: result.splits if_splits)

lemma find_in: "find P xs = Some x \<Longrightarrow> x \<in> set xs"
  by (induction xs) (auto split: if_splits)

lemma scan_candidates_in: "scan_candidates a res = Some v \<Longrightarrow> v \<in> snd ` set res"
  by (induction a res rule: scan_candidates.induct) (auto split: if_splits)

lemma walk_entries_in:
  "walk_entries es types res = Return (Some v) \<Longrightarrow> types \<noteq> [] \<Longrightarrow> v \<in> set types \<union> snd ` set res"
  by (induction es) (auto split: jsval.splits if_splits option.splits dest: scan_candidates_in)

lemma resolve_snd: "resolve it = Return x \<Longrightarrow> snd x = it"
  by (auto simp: resolve_eq split: if_splits)

lemma resolved_snd: "map resolve types = map Return resolved \<Longrightarrow> map snd resolved = types"
proof (induction types arbitrary: resolved)
  case Nil
  then show ?case by simp
next
  case (Cons c types)
  then obtain x xs where "resolved = x # xs" "resolve c = Return x"
    "map resolve types = map Return xs"
    by (cases resolved) auto
  then show ?case using resolve_snd [of c x] Cons.IH [of xs] by simp
qed

lemma accepts_in_types:
  assumes "accepts header types = Return (Some v)"
  shows "v \<in> set types"
proof -
  from assms have ne: "types \<noteq> []" by (auto simp: accepts_def)
  from assms ne obtain resolved es where
    r: "sequence (map resolve types) = Return resolved" and
    w: "walk_entries es types resolved = Return (Some v)"
    by (auto simp: accepts_def split: result.splits)
  from r have "map resolve types = map Return resolved" by (rule sequence_ReturnD)
  then have "map snd resolved = types" by (rule resolved_snd)
  then have "snd ` set resolved = set types" by (metis set_map)
  then show ?thesis using walk_entries_in [OF w ne] by auto
qed

lemma splice2_indexOf:
  "x \<in> set xs \<Longrightarrow> splice2 xs (indexOf xs x) 1 = remove1 x xs"
proof -
  assume x: "x \<in> set xs"
  have n: "length (takeWhile (\<lambda>t. t \<noteq> x) xs) < length xs"
    using x by (induction xs) auto
  have r: "remove1 x xs = take (length (takeWhile (\<lambda>t. t \<noteq> x) xs)) xs
                          @ drop (Suc (length (takeWhile (\<lambda>t. t \<noteq> x) xs))) xs"
    by (induction xs) auto
  have i: "indexOf xs x = int (length (takeWhile (\<lambda>y. y \<noteq> x) xs))"
    using x by (induction xs) (auto simp: Let_def)
  show ?thesis using n
    by (simp add: splice2_def relative_start_def i Let_def r min_def)
qed

lemma remove1_filter_distinct: "distinct xs \<Longrightarrow> remove1 x xs = filter (\<lambda>y. y \<noteq> x) xs"
  by (induction xs) (auto intro!: filter_True [symmetric])

text \<open>
  The walk of \<^verbatim>\<open>accepts\<close> over the sorted entries is the walk that the specification
  describes, for candidates of the type \<^verbatim>\<open>MimeTypeString\<close> (which excludes the names
  of inherited members) and an accept header whose entries all have a string as
  mime type; the entries are sorted by descending quality, and entries of the same
  quality keep the order of the header.
\<close>

lemma accepts_follows_specification:
  "(calc header = Return es \<longrightarrow> map mimeType es = map Str mts \<longrightarrow> types \<noteq> [] \<longrightarrow>
      set types \<inter> set inherited_members = {} \<longrightarrow>
      accepts header types = Return (accepts_spec mts types))
   \<and> (calc header = Return es \<longrightarrow>
        (\<exists>es0. sequence (map parse_entry
                   (split CHR '','' (case header of None \<Rightarrow> [] | Some h \<Rightarrow> h))) = Return es0
           \<and> sorted (map (\<lambda>e. - the (q_number e)) es)
           \<and> (\<forall>k. filter (\<lambda>e. - the (q_number e) = k) es = filter (\<lambda>e. - the (q_number e) = k) es0)))
   \<and> accepts header [] = Return None"
proof -
  have A: "calc header = Return es \<longrightarrow> map mimeType es = map Str mts \<longrightarrow> types \<noteq> [] \<longrightarrow>
      set types \<inter> set inherited_members = {} \<longrightarrow>
      accepts header types = Return (accepts_spec mts types)"
    using accepts_by_spec by blast
  have B: "calc header = Return es \<longrightarrow>
        (\<exists>es0. sequence (map parse_entry
                   (split CHR '','' (case header of None \<Rightarrow> [] | Some h \<Rightarrow> h))) = Return es0
           \<and> sorted (map (\<lambda>e. - the (q_number e)) es)
           \<and> (\<forall>k. filter (\<lambda>e. - the (q_number e) = k) es = filter (\<lambda>e. - the (q_number e) = k) es0))"
  proof
    assume "calc header = Return es"
    from calc_sorted [OF this] obtain es0 where
      s: "sequence (map parse_entry
            (split CHR '','' (case header of None \<Rightarrow> [] | Some h \<Rightarrow> h))) = Return es0"
      and es: "es = sort_key (\<lambda>e. - the (q_number e)) es0"
      by blast
    have "sorted (map (\<lambda>e. - the (q_number e)) es)" by (simp add: es)
    moreover have "\<forall>k. filter (\<lambda>e. - the (q_number e) = k) es
                       = filter (\<lambda>e. - the (q_number e) = k) es0"
      by (simp add: es sort_key_stable)
    ultimately show "\<exists>es0. sequence (map parse_entry
                   (split CHR '','' (case header of None \<Rightarrow> [] | Some h \<Rightarrow> h))) = Return es0
           \<and> sorted (map (\<lambda>e. - the (q_number e)) es)
           \<and> (\<forall>k. filter (\<lambda>e. - the (q_number e) = k) es = filter (\<lambda>e. - the (q_number e) = k) es0)"
      using s by blast
  qed
  have C: "accepts header [] = Return None" by (simp add: accepts_def)
  show ?thesis using A B C by blast
qed

text \<open>
  C3.  On the three accept headers of the claim \<^verbatim>\<open>accepts('json', 'html')\<close> returns
  what the claim says.  But the parameters of an element of the header are spread
  over its entry, so a parameter named \<^verbatim>\<open>mimeType\<close> replaces the mime type: under
  the accept header \<^verbatim>\<open>text/html;mimeType=1\<close> the mime type of the entry is the number
  1 and \<^verbatim>\<open>accepts('json')\<close> throws a type error, where no entry matches a candidate
  and the claim says that the result is \<^verbatim>\<open>false\<close>; under \<^verbatim>\<open>a/b;mimeType=text/html\<close>
  \<^verbatim>\<open>accepts('html')\<close> returns \<^verbatim>\<open>'html'\<close>, a type that the header does not list.
\<close>

theorem accepts_mimeType_parameter_replaces_type:
  "accepts (Some ''text/html;q=0.8, application/json;q=0.9'') [''json'', ''html''] = Return (Some ''json'')
   \<and> accepts (Some ''*/*'') [''json'', ''html''] = Return (Some ''json'')
   \<and> accepts (Some ''text/plain'') [''json'', ''html''] = Return None
   \<and> calc (Some ''text/html;mimeType=1'') = Return [\<lparr>mimeType = Num 1, q = Num 1\<rparr>]
   \<and> accepts (Some ''text/html;mimeType=1'') [''json''] = Throw TypeError
   \<and> calc (Some ''a/b;mimeType=text/html'') = Return [\<lparr>mimeType = Str ''text/html'', q = Num 1\<rparr>]
   \<and> accepts (Some ''a/b;mimeType=text/html'') [''html''] = Return (Some ''html'')"
  by code_simp

text \<open>
  C6.  \<^verbatim>\<open>accepting\<close> throws when the object has no key \<^verbatim>\<open>else\<close>, whatever the accept
  header is (the header is not read).  Otherwise the candidates are the other keys,
  in the order of the keys of the object: with no other key the handler of \<^verbatim>\<open>else\<close>
  is called; when \<^verbatim>\<open>accepts\<close> returns \<^verbatim>\<open>false\<close> the handler of \<^verbatim>\<open>else\<close> is called; when
  it returns a type, the object has a handler for that type and it is called; and
  an exception of \<^verbatim>\<open>accepts\<close> is the exception of \<^verbatim>\<open>accepting\<close>.  The keys of an
  object are distinct.
\<close>

theorem accepting_requires_else:
  assumes "distinct (map fst obj)"
  shows "(''else'' \<notin> fst ` set obj \<longrightarrow> accepting header obj = Throw Error)
       \<and> (map_of obj ''else'' = Some oh \<longrightarrow>
            (let keys' = filter (\<lambda>k. k \<noteq> ''else'') (map fst obj) in
               (keys' = [] \<longrightarrow> accepting header obj = Return oh)
             \<and> (keys' \<noteq> [] \<longrightarrow> accepts header keys' = Return None \<longrightarrow>
                  accepting header obj = Return oh)
             \<and> (keys' \<noteq> [] \<longrightarrow> accepts header keys' = Return (Some res) \<longrightarrow>
                  (\<exists>h. map_of obj res = Some h \<and> accepting header obj = Return h))
             \<and> (keys' \<noteq> [] \<longrightarrow> accepts header keys' = Throw e \<longrightarrow>
                  accepting header obj = Throw e)))"
proof -
  have A: "''else'' \<notin> fst ` set obj \<longrightarrow> accepting header obj = Throw Error"
    by (simp add: accepting_def)
  have B: "map_of obj ''else'' = Some oh \<longrightarrow>
            (let keys' = filter (\<lambda>k. k \<noteq> ''else'') (map fst obj) in
               (keys' = [] \<longrightarrow> accepting header obj = Return oh)
             \<and> (keys' \<noteq> [] \<longrightarrow> accepts header keys' = Return None \<longrightarrow>
                  accepting header obj = Return oh)
             \<and> (keys' \<noteq> [] \<longrightarrow> accepts header keys' = Return (Some res) \<longrightarrow>
                  (\<exists>h. map_of obj res = Some h \<and> accepting header obj = Return h))
             \<and> (keys' \<noteq> [] \<longrightarrow> accepts header keys' = Throw e \<longrightarrow>
                  accepting header obj = Throw e))"
  proof
    assume oh: "map_of obj ''else'' = Some oh"
    define keys' where "keys' = filter (\<lambda>k. k \<noteq> ''else'') (map fst obj)"
    have mem: "''else'' \<in> set (map fst obj)"
      using oh by (metis domI dom_map_of_conv_image_fst set_map)
    have sp: "splice2 (map fst obj) (indexOf (map fst obj) ''else'') 1 = keys'"
      using splice2_indexOf [OF mem] remove1_filter_distinct [OF assms] by (simp add: keys'_def)
    have acc: "accepting header obj =
        (if length keys' > 0 then
              (case accepts header keys' of
                 Return (Some res) \<Rightarrow>
                   (case map_of obj res of Some h \<Rightarrow> Return h | None \<Rightarrow> Throw TypeError)
               | Return None \<Rightarrow> Return oh
               | Throw e \<Rightarrow> Throw e
               | Unmodelled \<Rightarrow> Unmodelled)
            else Return oh)"
      using mem sp oh unfolding accepting_def Let_def
      by (simp split: result.splits option.splits)
    have c1: "keys' = [] \<longrightarrow> accepting header obj = Return oh"
      by (simp add: acc)
    have c2: "keys' \<noteq> [] \<longrightarrow> accepts header keys' = Return None \<longrightarrow>
                accepting header obj = Return oh"
      by (simp add: acc)
    have c3: "keys' \<noteq> [] \<longrightarrow> accepts header keys' = Return (Some res) \<longrightarrow>
                (\<exists>h. map_of obj res = Some h \<and> accepting header obj = Return h)"
    proof (intro impI)
      assume ne: "keys' \<noteq> []" and r: "accepts header keys' = Return (Some res)"
      have "res \<in> set keys'" using accepts_in_types [OF r] .
      then have "res \<in> fst ` set obj" by (auto simp: keys'_def)
      then obtain h where h: "map_of obj res = Some h"
        by (metis domD dom_map_of_conv_image_fst)
      then show "\<exists>h. map_of obj res = Some h \<and> accepting header obj = Return h"
        using ne r by (simp add: acc)
    qed
    have c4: "keys' \<noteq> [] \<longrightarrow> accepts header keys' = Throw e \<longrightarrow> accepting header obj = Throw e"
      by (simp add: acc)
    show "let keys' = filter (\<lambda>k. k \<noteq> ''else'') (map fst obj) in
               (keys' = [] \<longrightarrow> accepting header obj = Return oh)
             \<and> (keys' \<noteq> [] \<longrightarrow> accepts header keys' = Return None \<longrightarrow>
                  accepting header obj = Return oh)
             \<and> (keys' \<noteq> [] \<longrightarrow> accepts header keys' = Return (Some res) \<longrightarrow>
                  (\<exists>h. map_of obj res = Some h \<and> accepting header obj = Return h))
             \<and> (keys' \<noteq> [] \<longrightarrow> accepts header keys' = Throw e \<longrightarrow>
                  accepting header obj = Throw e)"
      using c1 c2 c3 c4 unfolding keys'_def [symmetric] Let_def by blast
  qed
  show ?thesis using A B by blast
qed

theorem accepting_requires_else_witness:
  "distinct (map fst [(''json'', 1::nat), (''html'', 2), (''else'', 3)])
   \<and> accepting (Some ''text/html'') [(''json'', 1::nat), (''html'', 2)] = Throw Error
   \<and> accepts (Some ''text/html'') [''json'', ''html''] = Return (Some ''html'')
   \<and> accepting (Some ''text/html'') [(''json'', 1::nat), (''html'', 2), (''else'', 3)] = Return 2
   \<and> accepts (Some ''text/plain'') [''json'', ''html''] = Return None
   \<and> accepting (Some ''text/plain'') [(''json'', 1::nat), (''html'', 2), (''else'', 3)] = Return 3
   \<and> accepting (Some ''text/plain'') [(''else'', 3::nat)] = Return 3
   \<and> accepts (Some ''x/y;mimeType=1'') [''json'', ''html''] = Throw TypeError
   \<and> accepting (Some ''x/y;mimeType=1'') [(''json'', 1::nat), (''html'', 2), (''else'', 3)]
       = Throw TypeError"
proof -
  let ?obj = "[(''json'', 1::nat), (''html'', 2), (''else'', 3)]"
  have d: "distinct (map fst ?obj)" by simp
  have d2: "distinct (map fst [(''json'', 1::nat), (''html'', 2)])" by simp
  have d1: "distinct (map fst [(''else'', 3::nat)])" by simp
  have k: "filter (\<lambda>k. k \<noteq> ''else'') (map fst ?obj) = [''json'', ''html'']" by simp
  have e: "map_of ?obj ''else'' = Some 3" by simp
  have a1: "accepts (Some ''text/html'') [''json'', ''html''] = Return (Some ''html'')"
    by code_simp
  have a2: "accepts (Some ''text/plain'') [''json'', ''html''] = Return None"
    by code_simp
  have a3: "accepts (Some ''x/y;mimeType=1'') [''json'', ''html''] = Throw TypeError"
    by code_simp
  have r0: "accepting (Some ''text/html'') [(''json'', 1::nat), (''html'', 2)] = Throw Error"
    using accepting_requires_else [OF d2, of "Some ''text/html''"] by simp
  have r1: "accepting (Some ''text/html'') ?obj = Return 2"
    using accepting_requires_else [OF d, of "Some ''text/html''" 3 "''html''"] a1
    unfolding Let_def k e by simp
  have r2: "accepting (Some ''text/plain'') ?obj = Return 3"
    using accepting_requires_else [OF d, of "Some ''text/plain''" 3] a2
    unfolding Let_def k e by simp
  have r3: "accepting (Some ''text/plain'') [(''else'', 3::nat)] = Return 3"
    using accepting_requires_else [OF d1, of "Some ''text/plain''" 3] by simp
  have r4: "accepting (Some ''x/y;mimeType=1'') ?obj = Throw TypeError"
    using accepting_requires_else [OF d, of "Some ''x/y;mimeType=1''" 3 _ TypeError] a3
    unfolding Let_def k e by simp
  show ?thesis by (intro conjI d r0 a1 r1 a2 r2 r3 a3 r4)
qed

section \<open>The parser on route patterns\<close>

lemma parse_literal:
  "list_all (\<lambda>c. \<not> syntax_char c) l \<Longrightarrow>
     parse (l @ cs) stk names acc = parse cs stk names (rev (map Chr l) @ acc)"
proof (induction l arbitrary: acc)
  case Nil
  then show ?case by simp
next
  case (Cons c l)
  then have c: "\<not> syntax_char c" and l: "list_all (\<lambda>c. \<not> syntax_char c) l" by simp_all
  from c have "c \<noteq> CHR ''^''" "c \<noteq> CHR ''$''" "c \<noteq> CHR ''.''" "c \<noteq> CHR ''*''" "c \<noteq> CHR ''+''"
    "c \<noteq> CHR ''?''" "c \<noteq> CHR ''(''" "c \<noteq> CHR '')''" "c \<noteq> CHR ''[''"
    by (auto simp: syntax_char_def)
  then have "parse ((c # l) @ cs) stk names acc = parse (l @ cs) stk names (Chr c # acc)"
    using c by simp
  then show ?case using Cons.IH [OF l] by simp
qed

lemma not_ident_gt: "\<not> ident_part CHR ''>''"
  by (simp add: ident_part_def ident_start_def)

lemma parse_group_open:
  assumes "takeWhile ident_part xs = n" "dropWhile ident_part xs = CHR ''>'' # rest"
    "n \<noteq> []" "ident_start (hd n)" "n \<notin> set names"
  shows "parse (CHR ''('' # CHR ''?'' # CHR ''<'' # xs) stk names acc
           = parse rest ((n, acc) # stk) (names @ [n]) []"
  using assms by (simp add: Let_def)

lemma takeWhile_name: "list_all ident_part n \<Longrightarrow> takeWhile ident_part (n @ CHR ''>'' # xs) = n"
  using not_ident_gt by (induction n) auto

lemma dropWhile_name:
  "list_all ident_part n \<Longrightarrow> dropWhile ident_part (n @ CHR ''>'' # xs) = CHR ''>'' # xs"
  using not_ident_gt by (induction n) auto

lemma parse_param:
  assumes "valid_name n" "n \<notin> set names"
  shows "parse (''(?<'' @ n @ ''>[^/]+)'' @ cs) stk names acc
           = parse cs stk (names @ [n]) (Group n [Plus NotSlash] # acc)"
proof -
  from assms(1) have all: "list_all ident_part n" and ne: "n \<noteq> []" and st: "ident_start (hd n)"
    by (simp_all add: valid_name_def)
  have step1: "parse (CHR ''('' # CHR ''?'' # CHR ''<'' # (n @ CHR ''>'' # (''[^/]+)'' @ cs))) stk names acc
      = parse (''[^/]+)'' @ cs) ((n, acc) # stk) (names @ [n]) []"
    by (rule parse_group_open [OF takeWhile_name [OF all] dropWhile_name [OF all] ne st assms(2)])
  have step2: "parse (''[^/]+)'' @ cs) ((n, acc) # stk) (names @ [n]) []
      = parse (''+)'' @ cs) ((n, acc) # stk) (names @ [n]) [NotSlash]"
    by simp
  have step3: "parse (''+)'' @ cs) ((n, acc) # stk) (names @ [n]) [NotSlash]
      = parse ('')'' @ cs) ((n, acc) # stk) (names @ [n]) [Plus NotSlash]"
    by (simp add: quantifiable_def quantify_def)
  have step4: "parse ('')'' @ cs) ((n, acc) # stk) (names @ [n]) [Plus NotSlash]
      = parse cs stk (names @ [n]) (Group n [Plus NotSlash] # acc)"
    by simp
  show ?thesis using step1 step2 step3 step4 by simp
qed

section \<open>The matcher on route patterns\<close>

lemma seqs_Nil: "seqs [] st = [st]"
  by (simp add: seqs_def)

lemma seqs_Cons: "seqs (f # fs) st = concat (map (seqs fs) (f st))"
  by (simp add: seqs_def seq_def)

lemma concat_map_concat:
  "concat (map g (concat (map h xs))) = concat (map (\<lambda>x. concat (map g (h x))) xs)"
  by (induction xs) auto

lemma seqs_append: "seqs (fs @ gs) st = concat (map (seqs gs) (seqs fs st))"
proof (induction fs arbitrary: st)
  case Nil
  then show ?case by (simp add: seqs_Nil)
next
  case (Cons f fs)
  have ih: "seqs (fs @ gs) = (\<lambda>x. concat (map (seqs gs) (seqs fs x)))"
    by (rule ext) (rule Cons.IH)
  have "seqs ((f # fs) @ gs) st = concat (map (\<lambda>x. concat (map (seqs gs) (seqs fs x))) (f st))"
    by (simp add: seqs_Cons ih)
  also have "\<dots> = concat (map (seqs gs) (concat (map (seqs fs) (f st))))"
    by (simp add: concat_map_concat)
  finally show ?case by (simp add: seqs_Cons)
qed

lemma seqs_single: "seqs [f] st = f st"
proof -
  have "seqs [] = (\<lambda>st. [st])" by (rule ext) (rule seqs_Nil)
  then show ?thesis by (simp add: seqs_Cons)
qed

lemma m_literal:
  "seqs (map m (map Chr l)) (i, s, cs)
     = (if take (length l) s = l then [(i + length l, drop (length l) s, cs)] else [])"
proof (induction l arbitrary: i s)
  case Nil
  then show ?case by (simp add: seqs_Nil)
next
  case (Cons c l)
  show ?case
  proof (cases s)
    case Nil
    then show ?thesis by (simp add: seqs_Cons one_def)
  next
    case (Cons x xs)
    then show ?thesis using Cons.IH [of "Suc i" xs]
      by (simp add: seqs_Cons one_def)
  qed
qed

lemma reset_Nil: "reset [] st = st"
  by (cases st) (simp add: reset_def)

lemma iter_one:
  "iter k [] (one P) (j, t, cs)
     = map (\<lambda>d. (j + d, drop d t, cs)) (rev [0 ..< Suc (min k (length (takeWhile P t)))])"
proof (induction k arbitrary: j t)
  case 0
  then show ?case by simp
next
  case (Suc k)
  show ?case
  proof (cases t)
    case Nil
    then show ?thesis by (simp add: reset_Nil one_def)
  next
    case (Cons x xs)
    show ?thesis
    proof (cases "P x")
      case False
      then show ?thesis using Cons by (simp add: reset_Nil one_def)
    next
      case True
      let ?L = "min k (length (takeWhile P xs))"
      have up: "[0 ..< Suc (Suc ?L)] = 0 # map Suc [0 ..< Suc ?L]"
        by (simp add: map_Suc_upt upt_conv_Cons del: upt_Suc)
      have "iter (Suc k) [] (one P) (j, t, cs)
              = iter k [] (one P) (Suc j, xs, cs) @ [(j, t, cs)]"
        using True Cons by (simp add: reset_Nil one_def progress_def)
      also have "\<dots> = map (\<lambda>d. (Suc j + d, drop d xs, cs)) (rev [0 ..< Suc ?L]) @ [(j, t, cs)]"
        by (simp only: Suc.IH)
      also have "\<dots> = map (\<lambda>d. (j + d, drop d t, cs)) (rev [0 ..< Suc (Suc ?L)])"
        unfolding up using Cons by (simp add: rev_map comp_def)
      finally show ?thesis using True Cons by simp
    qed
  qed
qed

lemma m_plus_notslash:
  "m (Plus NotSlash) (i, s, cs)
     = map (\<lambda>d. (i + d, drop d s, cs))
         (rev [1 ..< Suc (length (takeWhile (\<lambda>x. x \<noteq> CHR ''/'') s))])"
proof (cases s)
  case Nil
  then show ?thesis by (simp add: seq_def reset_Nil one_def)
next
  case (Cons x xs)
  show ?thesis
  proof (cases "x = CHR ''/''")
    case True
    then show ?thesis using Cons by (simp add: seq_def reset_Nil one_def)
  next
    case False
    let ?L = "length (takeWhile (\<lambda>x. x \<noteq> CHR ''/'') xs)"
    have le: "?L \<le> length xs" by (rule length_takeWhile_le)
    have up: "[1 ..< Suc (Suc ?L)] = map Suc [0 ..< Suc ?L]"
      by (simp add: map_Suc_upt del: upt_Suc)
    have "m (Plus NotSlash) (i, s, cs) = star [] (one (\<lambda>x. x \<noteq> CHR ''/'')) (Suc i, xs, cs)"
      using False Cons by (simp add: seq_def reset_Nil one_def)
    also have "\<dots> = map (\<lambda>d. (Suc i + d, drop d xs, cs)) (rev [0 ..< Suc ?L])"
      using le by (simp add: star_def iter_one min_def del: upt_Suc)
    also have "\<dots> = map (\<lambda>d. (i + d, drop d s, cs)) (rev [1 ..< Suc (Suc ?L)])"
      unfolding up using Cons by (simp add: rev_map comp_def del: upt_Suc)
    finally show ?thesis using False Cons by (simp del: upt_Suc)
  qed
qed

lemma m_param:
  "m (Group n [Plus NotSlash]) (i, s, cs)
     = map (\<lambda>d. (i + d, drop d s, (n, take d s) # cs))
         (rev [1 ..< Suc (length (takeWhile (\<lambda>x. x \<noteq> CHR ''/'') s))])"
proof -
  have "seqs (map m [Plus NotSlash]) (i, s, cs) = m (Plus NotSlash) (i, s, cs)"
    by (simp only: list.map seqs_single)
  then show ?thesis
    by (simp add: m_plus_notslash comp_def del: upt_Suc m.simps(9))
qed

lemma concat_all_Nil: "(\<forall>x\<in>set xs. f x = []) \<Longrightarrow> concat (map f xs) = []"
  by (induction xs) auto

lemma takeWhile_prefix_noslash:
  "CHR ''/'' \<notin> set p \<Longrightarrow>
     takeWhile (\<lambda>x. x \<noteq> CHR ''/'') (p @ t') = p @ takeWhile (\<lambda>x. x \<noteq> CHR ''/'') t'"
  by (induction p) auto

lemma dropWhile_prefix_noslash:
  "CHR ''/'' \<notin> set p \<Longrightarrow>
     dropWhile (\<lambda>x. x \<noteq> CHR ''/'') (p @ t') = dropWhile (\<lambda>x. x \<noteq> CHR ''/'') t'"
  by (induction p) auto

lemma dropWhile_noslash: "CHR ''/'' \<notin> set p \<Longrightarrow> dropWhile (\<lambda>x. x \<noteq> CHR ''/'') p = []"
  by (induction p) auto

lemma takeWhile_noslash: "CHR ''/'' \<notin> set p \<Longrightarrow> takeWhile (\<lambda>x. x \<noteq> CHR ''/'') p = p"
  by (induction p) auto

lemma literal_step:
  assumes "delimited g" "CHR ''/'' \<notin> set p"
  shows "concat (map g (seqs (map m (map Chr p)) (j, t, cs)))
       = (if takeWhile (\<lambda>x. x \<noteq> CHR ''/'') t = p
          then g (j + length p, dropWhile (\<lambda>x. x \<noteq> CHR ''/'') t, cs) else [])"
proof (cases "take (length p) t = p")
  case False
  have "takeWhile (\<lambda>x. x \<noteq> CHR ''/'') t \<noteq> p"
  proof
    assume e: "takeWhile (\<lambda>x. x \<noteq> CHR ''/'') t = p"
    have "t = p @ dropWhile (\<lambda>x. x \<noteq> CHR ''/'') t"
      using takeWhile_dropWhile_id [of "\<lambda>x. x \<noteq> CHR ''/''" t] e by simp
    then have "take (length p) t = p" by (metis append_eq_conv_conj)
    then show False using False by simp
  qed
  then show ?thesis using False unfolding m_literal by simp
next
  case True
  define t' where "t' = drop (length p) t"
  have t: "t = p @ t'" using True by (metis append_take_drop_id t'_def)
  show ?thesis
  proof (cases t')
    case Nil
    show ?thesis using Nil t True unfolding m_literal
      by (simp add: dropWhile_noslash [OF assms(2)] takeWhile_noslash [OF assms(2)])
  next
    case (Cons c u)
    show ?thesis
    proof (cases "c = CHR ''/''")
      case True
      then show ?thesis using assms(2) t Cons unfolding m_literal
        by (simp add: takeWhile_prefix_noslash dropWhile_prefix_noslash)
    next
      case False
      have "g (j + length p, c # u, cs) = []"
        using assms(1) False by (simp add: delimited_def)
      moreover have "takeWhile (\<lambda>x. x \<noteq> CHR ''/'') t \<noteq> p"
        using assms(2) t Cons False by (simp add: takeWhile_prefix_noslash)
      ultimately show ?thesis using t Cons unfolding m_literal by simp
    qed
  qed
qed

lemma param_step:
  assumes "delimited g"
  shows "concat (map g (m (Group n [Plus NotSlash]) (j, t, cs)))
       = (if takeWhile (\<lambda>x. x \<noteq> CHR ''/'') t \<noteq> []
          then g (j + length (takeWhile (\<lambda>x. x \<noteq> CHR ''/'') t),
                  dropWhile (\<lambda>x. x \<noteq> CHR ''/'') t,
                  (n, takeWhile (\<lambda>x. x \<noteq> CHR ''/'') t) # cs)
          else [])"
proof -
  define r where "r = takeWhile (\<lambda>x. x \<noteq> CHR ''/'') t"
  define h where "h = (\<lambda>d. (j + d, drop d t, (n, take d t) # cs))"
  have res: "m (Group n [Plus NotSlash]) (j, t, cs) = map h (rev [1 ..< Suc (length r)])"
    unfolding r_def h_def by (rule m_param)
  show ?thesis
  proof (cases "r = []")
    case True
    then show ?thesis using res by (simp add: r_def)
  next
    case False
    then obtain L where L: "length r = Suc L" by (cases r) auto
    have tl_dead: "\<forall>d\<in>set (rev [1 ..< Suc L]). g (h d) = []"
    proof
      fix d assume "d \<in> set (rev [1 ..< Suc L])"
      then have d: "d < length r" using L by auto
      have rt: "t = r @ dropWhile (\<lambda>x. x \<noteq> CHR ''/'') t"
        unfolding r_def by simp
      have "drop d t = drop d r @ dropWhile (\<lambda>x. x \<noteq> CHR ''/'') t"
        using d by (subst rt) simp
      moreover have "drop d r = r ! d # drop (Suc d) r" using d by (simp add: Cons_nth_drop_Suc)
      moreover have "r ! d \<noteq> CHR ''/''"
      proof -
        have "r ! d \<in> set (takeWhile (\<lambda>x. x \<noteq> CHR ''/'') t)"
          using nth_mem [OF d] by (simp add: r_def)
        then show ?thesis by (rule set_takeWhileD [THEN conjunct2])
      qed
      ultimately show "g (h d) = []"
        using assms by (simp add: h_def delimited_def)
    qed
    have "rev [1 ..< Suc (length r)] = Suc L # rev [1 ..< Suc L]"
      using L by simp
    then have "concat (map g (m (Group n [Plus NotSlash]) (j, t, cs))) = g (h (Suc L))"
      using res concat_all_Nil [OF tl_dead] by (simp add: comp_def del: upt_Suc)
    moreover have "drop (Suc L) t = dropWhile (\<lambda>x. x \<noteq> CHR ''/'') t"
      using L unfolding r_def by (metis append_eq_conv_conj takeWhile_dropWhile_id)
    moreover have "take (Suc L) t = r"
      using L unfolding r_def by (metis append_eq_conv_conj takeWhile_dropWhile_id)
    ultimately show ?thesis using False L by (simp add: h_def r_def)
  qed
qed

lemma seg_step:
  assumes "delimited g" "plain_part p" "CHR ''/'' \<notin> set p"
  shows "concat (map g (seqs (map m (Chr CHR ''/'' # items p)) (i, s, cs))) =
     (case s of
        [] \<Rightarrow> []
      | c # t \<Rightarrow>
          (let r = takeWhile (\<lambda>x. x \<noteq> CHR ''/'') t in
           if c = CHR ''/'' \<and> seg_ok p r
           then g (Suc i + length r, dropWhile (\<lambda>x. x \<noteq> CHR ''/'') t, seg_caps p r @ cs)
           else []))"
proof (cases s)
  case Nil
  then show ?thesis by (simp add: seqs_Cons one_def)
next
  case (Cons c t)
  show ?thesis
  proof (cases "c = CHR ''/''")
    case False
    then show ?thesis using Cons by (simp add: seqs_Cons one_def)
  next
    case True
    have first: "seqs (map m (Chr CHR ''/'' # items p)) (i, s, cs)
                   = seqs (map m (items p)) (Suc i, t, cs)"
      using True Cons by (simp add: seqs_Cons one_def)
    show ?thesis
    proof (cases "startsWith p '':''")
      case False
      then have it: "items p = map Chr p" by (simp add: items_def)
      have len: "takeWhile (\<lambda>x. x \<noteq> CHR ''/'') t = p \<Longrightarrow>
              length (takeWhile (\<lambda>x. x \<noteq> CHR ''/'') t) = length p" by simp
      have first_l: "seqs (map m (Chr CHR ''/'' # map Chr p)) (i, s, cs)
                       = seqs (map m (map Chr p)) (Suc i, t, cs)"
        using first unfolding it .
      show ?thesis unfolding it first_l literal_step [OF assms(1,3)]
        using True Cons False by (auto simp: seg_ok_def seg_caps_def Let_def dest: len)
    next
      case sw: True
      then have it: "items p = [Group (drop 1 p) [Plus NotSlash]]" by (simp add: items_def)
      have single: "seqs (map m [Group (drop 1 p) [Plus NotSlash]]) (Suc i, t, cs)
                      = m (Group (drop 1 p) [Plus NotSlash]) (Suc i, t, cs)"
        by (simp only: list.map seqs_single)
      have first_p: "seqs (map m (Chr CHR ''/'' # [Group (drop 1 p) [Plus NotSlash]])) (i, s, cs)
                       = m (Group (drop 1 p) [Plus NotSlash]) (Suc i, t, cs)"
        using first single unfolding it by simp
      show ?thesis unfolding it first_p param_step [OF assms(1)]
        using True Cons sw by (simp add: seg_ok_def seg_caps_def Let_def)
    qed
  qed
qed

lemma delimited_lead:
  assumes "delimited (seqs (map m tail))"
  shows "delimited (seqs (map m (lead_items ps @ tail)))"
proof (cases ps)
  case Nil
  then show ?thesis using assms by (simp add: lead_items_def)
next
  case (Cons p ps')
  then show ?thesis
    by (simp add: lead_items_def delimited_def seqs_Cons one_def)
qed

lemma lead_match:
  assumes "delimited (seqs (map m tail))" "list_all plain_part ps"
    "\<forall>p\<in>set ps. CHR ''/'' \<notin> set p"
  shows "seqs (map m (lead_items ps @ tail)) st =
           (case consume ps st of None \<Rightarrow> [] | Some st' \<Rightarrow> seqs (map m tail) st')"
  using assms(2,3)
proof (induction ps arbitrary: st)
  case Nil
  then show ?case by (simp add: lead_items_def)
next
  case (Cons p ps)
  obtain i s cs where st: "st = (i, s, cs)" by (cases st) auto
  let ?g = "seqs (map m (lead_items ps @ tail))"
  have g: "delimited ?g" by (rule delimited_lead [OF assms(1)])
  have pp: "plain_part p" and ns: "CHR ''/'' \<notin> set p" using Cons.prems by simp_all
  have ih: "\<And>st. ?g st = (case consume ps st of None \<Rightarrow> [] | Some st' \<Rightarrow> seqs (map m tail) st')"
    using Cons.IH Cons.prems by simp
  have "seqs (map m (lead_items (p # ps) @ tail)) st
          = concat (map ?g (seqs (map m (Chr CHR ''/'' # items p)) (i, s, cs)))"
    using seqs_append [of "map m (Chr CHR ''/'' # items p)" "map m (lead_items ps @ tail)" st]
    by (simp add: lead_items_def st)
  also have "\<dots> = (case consume (p # ps) st of None \<Rightarrow> [] | Some st' \<Rightarrow> seqs (map m tail) st')"
    unfolding seg_step [OF g pp ns]
    by (cases s) (simp_all add: st ih Let_def del: map_append)
  finally show ?case .
qed

lemma tail_N: "seqs (map m [Eol]) (j, t, cs) = (if t = [] then [(j, t, cs)] else [])"
  by (simp only: list.map seqs_single) simp

lemma delimited_N: "delimited (seqs (map m [Eol]))"
  unfolding delimited_def tail_N by simp

lemma tail_S:
  "seqs (map m [Opt (Chr CHR ''/''), Eol]) (j, t, cs)
     = (if t = [] then [(j, [], cs)] else if t = ''/'' then [(Suc j, [], cs)] else [])"
proof (cases t)
  case Nil
  then show ?thesis by (simp add: seqs_Cons seqs_Nil one_def reset_Nil)
next
  case (Cons c u)
  then show ?thesis
    by (cases u) (auto simp: seqs_Cons seqs_Nil one_def reset_Nil progress_def)
qed

lemma delimited_S: "delimited (seqs (map m [Opt (Chr CHR ''/''), Eol]))"
  unfolding delimited_def tail_S by simp

lemma tail_W:
  "seqs (map m [Chr CHR ''/'', Star Dot]) (j, t, cs)
     = (case t of
          [] \<Rightarrow> []
        | c # u \<Rightarrow>
            if c = CHR ''/''
            then map (\<lambda>d. (Suc j + d, drop d u, cs))
                   (rev [0 ..< Suc (length (takeWhile (\<lambda>x. x \<noteq> CHR 0x0A \<and> x \<noteq> CHR 0x0D) u))])
            else [])"
proof (cases t)
  case Nil
  then show ?thesis by (simp add: seqs_Cons one_def)
next
  case (Cons c u)
  have le: "length (takeWhile (\<lambda>x. x \<noteq> CHR 0x0A \<and> x \<noteq> CHR 0x0D) u) \<le> length u"
    by (rule length_takeWhile_le)
  have st: "m (Star Dot) (Suc j, u, cs)
      = map (\<lambda>d. (Suc j + d, drop d u, cs))
          (rev [0 ..< Suc (length (takeWhile (\<lambda>x. x \<noteq> CHR 0x0A \<and> x \<noteq> CHR 0x0D) u))])"
    using le by (simp add: star_def iter_one min_def del: upt_Suc)
  have single: "seqs (map m [Star Dot]) (Suc j, u, cs) = m (Star Dot) (Suc j, u, cs)"
    by (simp only: list.map seqs_single)
  show ?thesis
  proof (cases "c = CHR ''/''")
    case True
    have "seqs (map m [Chr CHR ''/'', Star Dot]) (j, t, cs) = seqs (map m [Star Dot]) (Suc j, u, cs)"
      using True Cons by (simp add: seqs_Cons one_def)
    then show ?thesis using True Cons single st by (simp del: upt_Suc m.simps)
  next
    case False
    then show ?thesis using Cons by (simp add: seqs_Cons one_def)
  qed
qed

lemma delimited_W: "delimited (seqs (map m [Chr CHR ''/'', Star Dot]))"
  by (simp add: delimited_def seqs_Cons one_def)

lemma split_takeWhile:
  "split c t = takeWhile (\<lambda>x. x \<noteq> c) t
                 # (case dropWhile (\<lambda>x. x \<noteq> c) t of [] \<Rightarrow> [] | x # u \<Rightarrow> split c u)"
  by (induction t) (auto split: list.splits)

lemma split_not_Nil: "split c t \<noteq> []"
  by (induction t) (auto split: list.splits)

lemma dropWhile_slash_led:
  "dropWhile (\<lambda>x. x \<noteq> c) t = [] \<or> hd (dropWhile (\<lambda>x. x \<noteq> c) t) = c"
  using hd_dropWhile [of "\<lambda>x. x \<noteq> c" t] by auto

lemma segs_step:
  "tl (split CHR ''/'' (CHR ''/'' # t))
     = takeWhile (\<lambda>x. x \<noteq> CHR ''/'') t # tl (split CHR ''/'' (dropWhile (\<lambda>x. x \<noteq> CHR ''/'') t))"
proof -
  have a: "tl (split CHR ''/'' (CHR ''/'' # t)) = split CHR ''/'' t" by simp
  show ?thesis
  proof (cases "dropWhile (\<lambda>x. x \<noteq> CHR ''/'') t")
    case Nil
    have "split CHR ''/'' t = [takeWhile (\<lambda>x. x \<noteq> CHR ''/'') t]"
      by (subst split_takeWhile) (simp only: Nil list.case)
    then show ?thesis unfolding a Nil by simp
  next
    case (Cons x u)
    then have x: "x = CHR ''/''" using dropWhile_slash_led [of "CHR ''/''" t] by simp
    have "split CHR ''/'' t = takeWhile (\<lambda>x. x \<noteq> CHR ''/'') t # split CHR ''/'' u"
      by (subst split_takeWhile) (simp only: Cons list.case)
    then show ?thesis unfolding a Cons x by simp
  qed
qed

lemma slash_led_dropWhile: "slash_led (dropWhile (\<lambda>x. x \<noteq> CHR ''/'') t)"
  using dropWhile_slash_led [of "CHR ''/''" t] by (simp add: slash_led_def)

lemma slash_led_rest: "slash_led s \<Longrightarrow> slash_led (rest_after k s)"
  by (induction k arbitrary: s) (auto simp: slash_led_dropWhile)

lemma segs_Nil_iff: "slash_led s \<Longrightarrow> tl (split CHR ''/'' s) = [] \<longleftrightarrow> s = []"
proof (cases s)
  case Nil
  then show ?thesis by simp
next
  case (Cons c t)
  assume "slash_led s"
  then have "c = CHR ''/''" using Cons by (simp add: slash_led_def)
  then show ?thesis using Cons split_not_Nil [of "CHR ''/''" t] by simp
qed

lemma segs_rest:
  "slash_led s \<Longrightarrow> tl (split CHR ''/'' (rest_after k s)) = drop k (tl (split CHR ''/'' s))"
proof (induction k arbitrary: s)
  case 0
  then show ?case by simp
next
  case (Suc k)
  show ?case
  proof (cases s)
    case Nil
    have "rest_after k [] = []" for k by (induction k) auto
    then show ?thesis using Nil by simp
  next
    case (Cons c t)
    then have c: "c = CHR ''/''" using Suc.prems by (simp add: slash_led_def)
    have "tl (split CHR ''/'' (rest_after k (dropWhile (\<lambda>x. x \<noteq> CHR ''/'') t)))
            = drop k (tl (split CHR ''/'' (dropWhile (\<lambda>x. x \<noteq> CHR ''/'') t)))"
      by (rule Suc.IH [OF slash_led_dropWhile])
    then show ?thesis unfolding Cons c segs_step by simp
  qed
qed

lemma caps_of_Cons: "caps_of (p # ps) (r # rs) = caps_of ps rs @ seg_caps p r"
  by (simp add: caps_of_def)

lemma consume_segs:
  assumes "slash_led s"
  shows "(length ps \<le> length (tl (split CHR ''/'' s))
            \<and> list_all2 seg_ok ps (take (length ps) (tl (split CHR ''/'' s)))
          \<longrightarrow> (\<exists>j. consume ps (i, s, cs)
                  = Some (j, rest_after (length ps) s, caps_of ps (tl (split CHR ''/'' s)) @ cs)))
       \<and> (\<not> (length ps \<le> length (tl (split CHR ''/'' s))
            \<and> list_all2 seg_ok ps (take (length ps) (tl (split CHR ''/'' s))))
          \<longrightarrow> consume ps (i, s, cs) = None)"
  using assms
proof (induction ps arbitrary: i s cs)
  case Nil
  then show ?case by (simp add: caps_of_def)
next
  case (Cons p ps)
  show ?case
  proof (cases s)
    case Nil
    then show ?thesis by simp
  next
    case (Cons c t)
    then have c: "c = CHR ''/''" using Cons.prems by (simp add: slash_led_def)
    define r where "r = takeWhile (\<lambda>x. x \<noteq> CHR ''/'') t"
    define t' where "t' = dropWhile (\<lambda>x. x \<noteq> CHR ''/'') t"
    have led: "slash_led t'" unfolding t'_def by (rule slash_led_dropWhile)
    have segs: "tl (split CHR ''/'' s) = r # tl (split CHR ''/'' t')"
      unfolding Cons c r_def t'_def by (rule segs_step)
    have step: "consume (p # ps) (i, s, cs)
                  = (if seg_ok p r then consume ps (Suc i + length r, t', seg_caps p r @ cs) else None)"
      unfolding Cons c r_def t'_def by (simp add: Let_def)
    have rest: "rest_after (length (p # ps)) s = rest_after (length ps) t'"
      unfolding Cons t'_def by simp
    note ih = Cons.IH [OF led, of "Suc i + length r" "seg_caps p r @ cs"]
    show ?thesis unfolding step rest segs using ih
      by (auto simp: caps_of_Cons)
  qed
qed

lemma group_names_Chr: "concat (map group_names (map Chr l)) = []"
  by (induction l) auto

lemma group_names_items:
  "concat (map group_names (items p)) = (if startsWith p '':'' then [drop 1 p] else [])"
  by (simp add: items_def group_names_Chr del: map_map)

lemma group_names_lead: "concat (map group_names (lead_items ps)) = param_names ps"
  by (induction ps) (simp_all add: lead_items_def param_names_def group_names_items)

lemma map_filter_all_None: "(\<forall>x\<in>set xs. f x = None) \<Longrightarrow> List.map_filter f xs = []"
  by (induction xs) (auto simp: List.map_filter_simps)

lemma match_at_Bol:
  "match_at (Bol # rest) s i =
     (if i = 0 then (case seqs (map m rest) (0, s, []) of [] \<Rightarrow> None | st # _ \<Rightarrow> Some st)
      else None)"
  by (simp add: match_at_def seqs_Cons)

lemma exec_Bol:
  "exec (Bol # rest) s =
     (case seqs (map m rest) (0, s, []) of
        [] \<Rightarrow> None
      | (j, t, cs) # _ \<Rightarrow>
          Some \<lparr> matched = take j s,
                 groups = (let ns = concat (map group_names rest)
                           in if ns = [] then None else Some (map (\<lambda>n. (n, map_of cs n)) ns)) \<rparr>)"
proof -
  let ?f = "\<lambda>i. map_option (Pair i) (match_at (Bol # rest) s i)"
  have up: "[0 ..< Suc (length s)] = 0 # [Suc 0 ..< Suc (length s)]"
    by (simp add: upt_conv_Cons del: upt_Suc)
  have dead: "List.map_filter ?f [Suc 0 ..< Suc (length s)] = []"
  proof (rule map_filter_all_None, rule ballI)
    fix i assume "i \<in> set [Suc 0 ..< Suc (length s)]"
    then have "i \<noteq> 0" by (simp del: upt_Suc)
    then show "?f i = None" by (simp add: match_at_Bol)
  qed
  have mf: "List.map_filter ?f [0 ..< Suc (length s)]
              = (case ?f 0 of None \<Rightarrow> [] | Some x \<Rightarrow> [x])"
    unfolding up by (simp add: List.map_filter_simps dead del: upt_Suc split: option.splits)
  show ?thesis unfolding exec_def mf
    by (simp add: match_at_Bol split: list.splits)
qed

lemma map_of_rev_distinct:
  assumes "distinct (map fst xs)"
  shows "map_of (rev xs) k = map_of xs k"
proof -
  have d: "distinct (map fst (rev xs))" using assms by (simp add: rev_map [symmetric])
  show ?thesis
  proof (cases "map_of xs k")
    case None
    then have "k \<notin> fst ` set xs" by (simp add: map_of_eq_None_iff)
    then have "map_of (rev xs) k = None" by (simp add: map_of_eq_None_iff)
    then show ?thesis using None by simp
  next
    case (Some v)
    then have "(k, v) \<in> set xs" by (rule map_of_SomeD)
    then have "(k, v) \<in> set (rev xs)" by simp
    then have "map_of (rev xs) k = Some v" using d by simp
    then show ?thesis using Some by simp
  qed
qed

lemma caps_of_rev: "caps_of ps rs = rev (cap_pairs ps rs)"
proof (induction ps arbitrary: rs)
  case Nil
  then show ?case by (simp add: caps_of_def cap_pairs_def)
next
  case (Cons p ps)
  show ?case
  proof (cases rs)
    case Nil
    then show ?thesis by (simp add: caps_of_def cap_pairs_def)
  next
    case (Cons r rs')
    have "cap_pairs (p # ps) (r # rs') = seg_caps p r @ cap_pairs ps rs'"
      by (simp add: cap_pairs_def seg_caps_def)
    moreover have "rev (seg_caps p r) = seg_caps p r" by (simp add: seg_caps_def)
    ultimately show ?thesis using Cons Cons.IH [of rs'] by (simp add: caps_of_Cons)
  qed
qed

lemma fst_cap_pairs:
  "length ps \<le> length rs \<Longrightarrow> map fst (cap_pairs ps rs) = param_names ps"
proof (induction ps arbitrary: rs)
  case Nil
  then show ?case by (simp add: cap_pairs_def param_names_def)
next
  case (Cons p ps)
  then obtain r rs' where rs: "rs = r # rs'" by (cases rs) auto
  then have "length ps \<le> length rs'" using Cons.prems by simp
  from Cons.IH [OF this] show ?case
    by (simp add: rs cap_pairs_def param_names_def)
qed

lemma groups_of_caps:
  assumes "distinct (param_names ps)" "length ps \<le> length rs"
  shows "map (\<lambda>n. (n, map_of (caps_of ps rs) n)) (param_names ps)
           = map (\<lambda>(p, r). (drop 1 p, Some r)) (filter (\<lambda>(p, r). startsWith p '':'') (zip ps rs))"
proof -
  let ?C = "cap_pairs ps rs"
  have keys: "map fst ?C = param_names ps" by (rule fst_cap_pairs [OF assms(2)])
  have d: "distinct (map fst ?C)" using assms(1) keys by simp
  have "map (\<lambda>n. (n, map_of (caps_of ps rs) n)) (param_names ps)
          = map (\<lambda>n. (n, map_of ?C n)) (map fst ?C)"
    by (simp add: keys caps_of_rev map_of_rev_distinct [OF d])
  also have "\<dots> = map (\<lambda>(n, r). (n, Some r)) ?C"
    using d by (auto simp: comp_def)
  also have "\<dots> = map (\<lambda>(p, r). (drop 1 p, Some r)) (filter (\<lambda>(p, r). startsWith p '':'') (zip ps rs))"
    by (simp add: cap_pairs_def comp_def case_prod_unfold)
  finally show ?thesis .
qed

lemma zip_take_length: "zip xs (take (length xs) ys) = zip xs ys"
proof (induction xs arbitrary: ys)
  case Nil
  then show ?case by simp
next
  case (Cons x xs)
  then show ?case by (cases ys) auto
qed

lemma zip_butlast_filter:
  assumes "ps \<noteq> []" "\<not> startsWith (last ps) '':''"
  shows "filter (\<lambda>(p, r). startsWith p '':'') (zip ps rs)
           = filter (\<lambda>(p, r). startsWith p '':'') (zip (butlast ps) rs)"
proof -
  let ?n = "length (butlast ps)"
  have ps: "ps = butlast ps @ [last ps]" using assms(1) by simp
  have "zip ps rs = zip (butlast ps) (take ?n rs) @ zip [last ps] (drop ?n rs)"
    by (subst ps) (simp only: zip_append1)
  then have z: "zip ps rs = zip (butlast ps) rs @ zip [last ps] (drop ?n rs)"
    by (simp only: zip_take_length)
  have f: "filter (\<lambda>(p, r). startsWith p '':'') (zip [last ps] (drop ?n rs)) = []"
    using assms(2) by (cases "drop ?n rs") auto
  show ?thesis by (simp only: z filter_append f append_Nil2)
qed

lemma param_names_butlast:
  assumes "ps \<noteq> []" "\<not> startsWith (last ps) '':''"
  shows "param_names ps = param_names (butlast ps)"
proof -
  have ps: "ps = butlast ps @ [last ps]" using assms(1) by simp
  show ?thesis by (subst ps) (simp add: param_names_def assms(2))
qed

lemma endsWith_append: "endsWith (xs @ p) p"
  by (simp add: endsWith_def)

lemma endsWith_last: "endsWith s p \<Longrightarrow> p \<noteq> [] \<Longrightarrow> s \<noteq> [] \<and> last s = last p"
proof -
  assume e: "endsWith s p" and p: "p \<noteq> []"
  then have "s = take (length s - length p) s @ p"
    by (metis append_take_drop_id endsWith_def)
  then show ?thesis using p by (metis last_appendR snoc_eq_iff_butlast append_is_Nil_conv)
qed

lemma join_Cons: "join sep (y # ys) = y @ concat (map (\<lambda>x. sep @ x) ys)"
  by (induction ys arbitrary: y) auto

lemma cutout_Nil: "cutout [] = []"
  by (simp add: cutout_def startsWith_def)

lemma source_lead: "join ''/'' (map cutout ([] # ps)) = lead_source ps"
  by (simp add: join_Cons cutout_Nil lead_source_def comp_def)

lemma lead_source_snoc: "lead_source (body @ [l]) = lead_source body @ CHR ''/'' # cutout l"
  by (simp add: lead_source_def)

lemma lead_items_snoc: "lead_items (body @ [l]) = lead_items body @ Chr CHR ''/'' # items l"
  by (simp add: lead_items_def)

lemma split_no_sep: "p \<in> set (split c s) \<Longrightarrow> c \<notin> set p"
proof (induction s arbitrary: p)
  case Nil
  then show ?case by simp
next
  case (Cons x xs)
  show ?case
  proof (cases "x = c")
    case True
    then show ?thesis using Cons by auto
  next
    case False
    obtain y ys where sp: "split c xs = y # ys"
      using split_not_Nil [of c xs] by (cases "split c xs") auto
    have y: "c \<notin> set y" using Cons.IH [of y] sp by simp
    show ?thesis using Cons.prems Cons.IH False sp y by auto
  qed
qed

lemma slash_not_syntax: "\<not> syntax_char CHR ''/''"
  by (simp add: syntax_char_def)

lemma cutout_literal: "\<not> startsWith p '':'' \<Longrightarrow> cutout p = p"
  by (simp add: cutout_def)

lemma cutout_param: "startsWith p '':'' \<Longrightarrow> cutout p = ''(?<'' @ drop 1 p @ ''>[^/]+)''"
  by (simp add: cutout_def)

lemma parse_slash: "parse (CHR ''/'' # cs) stk names acc = parse cs stk names (Chr CHR ''/'' # acc)"
  using parse_literal [of "''/''" cs stk names acc] slash_not_syntax by simp

lemma parse_lead:
  assumes "list_all plain_part ps" "distinct (names @ param_names ps)"
  shows "parse (lead_source ps @ cs) stk names acc
           = parse cs stk (names @ param_names ps) (rev (lead_items ps) @ acc)"
  using assms
proof (induction ps arbitrary: names acc)
  case Nil
  then show ?case by (simp add: lead_source_def lead_items_def param_names_def)
next
  case (Cons p ps)
  have pl: "plain_part p" and rest: "list_all plain_part ps" using Cons.prems(1) by simp_all
  show ?case
  proof (cases "startsWith p '':''")
    case False
    then have lit: "list_all (\<lambda>c. \<not> syntax_char c) p"
      using pl by (simp add: plain_part_def literal_part_def param_part_def)
    have pn: "param_names (p # ps) = param_names ps" using False by (simp add: param_names_def)
    have d: "distinct (names @ param_names ps)" using Cons.prems(2) pn by simp
    have "parse (lead_source (p # ps) @ cs) stk names acc
            = parse (p @ lead_source ps @ cs) stk names (Chr CHR ''/'' # acc)"
      by (simp add: lead_source_def cutout_literal [OF False] parse_slash del: parse.simps)
    also have "\<dots> = parse (lead_source ps @ cs) stk names (rev (map Chr p) @ Chr CHR ''/'' # acc)"
      by (rule parse_literal [OF lit])
    also have "\<dots> = parse cs stk (names @ param_names ps)
                        (rev (lead_items ps) @ rev (map Chr p) @ Chr CHR ''/'' # acc)"
      by (rule Cons.IH [OF rest d])
    finally show ?thesis using False by (simp add: pn lead_items_def items_def)
  next
    case True
    then have vn: "valid_name (drop 1 p)"
      using pl by (simp add: plain_part_def literal_part_def param_part_def)
    have pn: "param_names (p # ps) = drop 1 p # param_names ps" using True by (simp add: param_names_def)
    have fresh: "drop 1 p \<notin> set names" using Cons.prems(2) pn by auto
    have d: "distinct ((names @ [drop 1 p]) @ param_names ps)" using Cons.prems(2) pn by simp
    have "parse (lead_source (p # ps) @ cs) stk names acc
            = parse (''(?<'' @ drop 1 p @ ''>[^/]+)'' @ lead_source ps @ cs) stk names (Chr CHR ''/'' # acc)"
      by (simp add: lead_source_def cutout_param [OF True] parse_slash del: parse.simps)
    also have "\<dots> = parse (lead_source ps @ cs) stk (names @ [drop 1 p])
                        (Group (drop 1 p) [Plus NotSlash] # Chr CHR ''/'' # acc)"
      by (rule parse_param [OF vn fresh])
    also have "\<dots> = parse cs stk ((names @ [drop 1 p]) @ param_names ps)
                        (rev (lead_items ps) @ Group (drop 1 p) [Plus NotSlash] # Chr CHR ''/'' # acc)"
      by (rule Cons.IH [OF rest d])
    finally show ?thesis using True by (simp add: pn lead_items_def items_def)
  qed
qed

lemma not_endsWith_last: "s \<noteq> [] \<Longrightarrow> p \<noteq> [] \<Longrightarrow> last s \<noteq> last p \<Longrightarrow> \<not> endsWith s p"
  using endsWith_last by blast

lemma source_S:
  assumes "split CHR ''/'' (fullPath pp route) = [] # body @ [[]]"
  shows "pattern_source pp route = ''^'' @ lead_source body @ ''/?$''"
proof -
  let ?X = "join ''/'' (map cutout (split CHR ''/'' (fullPath pp route)))"
  have X: "?X = lead_source body @ ''/''"
    unfolding assms source_lead lead_source_snoc by (simp add: cutout_Nil)
  have e: "endsWith ?X ''/''" unfolding X by (rule endsWith_append)
  have r: "replace_final_slash ?X = lead_source body @ ''/?''"
    using e unfolding replace_final_slash_def by (simp add: X)
  have n: "\<not> endsWith (lead_source body @ ''/?'') ''/*''"
    by (rule not_endsWith_last) simp_all
  show ?thesis unfolding pattern_source_def Let_def r using n by simp
qed

lemma source_W:
  assumes "split CHR ''/'' (fullPath pp route) = [] # body @ [''*'']"
  shows "pattern_source pp route = ''^'' @ lead_source body @ ''/.*''"
proof -
  let ?X = "join ''/'' (map cutout (split CHR ''/'' (fullPath pp route)))"
  have c: "cutout ''*'' = ''*''" by (simp add: cutout_def startsWith_def)
  have X: "?X = lead_source body @ ''/*''"
    unfolding assms source_lead lead_source_snoc by (simp add: c)
  have n: "\<not> endsWith ?X ''/''" unfolding X by (rule not_endsWith_last) simp_all
  have r: "replace_final_slash ?X = ?X"
    using n unfolding replace_final_slash_def by simp
  have e: "endsWith ?X ''/*''" unfolding X by (rule endsWith_append)
  have s: "replace_final_star ?X = lead_source body @ ''/.*''"
    using e unfolding replace_final_star_def by (simp add: X)
  show ?thesis unfolding pattern_source_def Let_def r using e s by simp
qed

lemma last_cutout:
  assumes "plain_part l" "l \<noteq> []" "CHR ''/'' \<notin> set l"
  shows "cutout l \<noteq> [] \<and> last (cutout l) \<noteq> CHR ''/'' \<and> last (cutout l) \<noteq> CHR ''*''"
proof (cases "startsWith l '':''")
  case True
  then show ?thesis by (simp add: cutout_param)
next
  case False
  then have "list_all (\<lambda>c. \<not> syntax_char c) l"
    using assms(1) by (simp add: plain_part_def literal_part_def param_part_def)
  then have "\<not> syntax_char (last l)" using assms(2) by (simp add: list_all_iff)
  then have "last l \<noteq> CHR ''*''" by (auto simp: syntax_char_def)
  moreover have "last l \<noteq> CHR ''/''" using assms(2,3) last_in_set by metis
  ultimately show ?thesis using False assms(2) by (simp add: cutout_literal)
qed

lemma source_N:
  assumes "split CHR ''/'' (fullPath pp route) = [] # body @ [l]"
    "plain_part l" "l \<noteq> []"
  shows "pattern_source pp route = ''^'' @ lead_source (body @ [l]) @ ''$''"
proof -
  let ?X = "join ''/'' (map cutout (split CHR ''/'' (fullPath pp route)))"
  have "l \<in> set (split CHR ''/'' (fullPath pp route))" unfolding assms(1) by simp
  then have ns: "CHR ''/'' \<notin> set l" by (rule split_no_sep)
  note lc = last_cutout [OF assms(2,3) ns]
  have X: "?X = lead_source body @ CHR ''/'' # cutout l"
    unfolding assms(1) source_lead lead_source_snoc by simp
  have lastX: "last ?X = last (cutout l)" unfolding X using lc by simp
  have neX: "?X \<noteq> []" unfolding X by simp
  have n1: "\<not> endsWith ?X ''/''"
    by (rule not_endsWith_last [OF neX]) (use lastX lc in simp_all)
  have n2: "\<not> endsWith ?X ''/*''"
    by (rule not_endsWith_last [OF neX]) (use lastX lc in simp_all)
  have r: "replace_final_slash ?X = ?X"
    using n1 unfolding replace_final_slash_def by simp
  show ?thesis unfolding pattern_source_def Let_def r using n2
    by (simp add: X lead_source_snoc)
qed

lemma distinct_param_names_butlast:
  "distinct (param_names ps) \<Longrightarrow> distinct (param_names (butlast ps))"
proof (cases "ps = []")
  case True
  then show ?thesis by (simp add: param_names_def)
next
  case False
  assume d: "distinct (param_names ps)"
  have "ps = butlast ps @ [last ps]" using False by simp
  then have "param_names ps = param_names (butlast ps) @ param_names [last ps]"
    by (metis filter_append map_append param_names_def)
  then show ?thesis using d by simp
qed

lemma regexp_N:
  assumes "split CHR ''/'' (fullPath pp route) = [] # body @ [l]"
    "plain_part l" "l \<noteq> []" "list_all plain_part body" "distinct (param_names (body @ [l]))"
  shows "getPathRegExp pp route = Return (Bol # lead_items (body @ [l]) @ [Eol])"
proof -
  have pl: "list_all plain_part (body @ [l])" using assms(2,4) by simp
  have d: "distinct ([] @ param_names (body @ [l]))" using assms(5) by simp
  have "parse (''^'' @ lead_source (body @ [l]) @ ''$'') [] [] []
          = parse (lead_source (body @ [l]) @ ''$'') [] [] [Bol]" by simp
  also have "\<dots> = parse ''$'' [] ([] @ param_names (body @ [l])) (rev (lead_items (body @ [l])) @ [Bol])"
    by (rule parse_lead [OF pl d])
  also have "\<dots> = Return (Bol # lead_items (body @ [l]) @ [Eol])" by simp
  finally show ?thesis
    unfolding getPathRegExp_def RegExp_def source_N [OF assms(1,2,3)] .
qed

lemma regexp_S:
  assumes "split CHR ''/'' (fullPath pp route) = [] # body @ [[]]"
    "list_all plain_part body" "distinct (param_names body)"
  shows "getPathRegExp pp route = Return (Bol # lead_items body @ [Opt (Chr CHR ''/''), Eol])"
proof -
  have d: "distinct ([] @ param_names body)" using assms(3) by simp
  have "parse (''^'' @ lead_source body @ ''/?$'') [] [] []
          = parse (lead_source body @ ''/?$'') [] [] [Bol]" by simp
  also have "\<dots> = parse ''/?$'' [] ([] @ param_names body) (rev (lead_items body) @ [Bol])"
    by (rule parse_lead [OF assms(2) d])
  also have "\<dots> = Return (Bol # lead_items body @ [Opt (Chr CHR ''/''), Eol])"
    by (simp add: slash_not_syntax quantifiable_def quantify_def)
  finally show ?thesis
    unfolding getPathRegExp_def RegExp_def source_S [OF assms(1)] .
qed

lemma regexp_W:
  assumes "split CHR ''/'' (fullPath pp route) = [] # body @ [''*'']"
    "list_all plain_part body" "distinct (param_names body)"
  shows "getPathRegExp pp route = Return (Bol # lead_items body @ [Chr CHR ''/'', Star Dot])"
proof -
  have d: "distinct ([] @ param_names body)" using assms(3) by simp
  have "parse (''^'' @ lead_source body @ ''/.*'') [] [] []
          = parse (lead_source body @ ''/.*'') [] [] [Bol]" by simp
  also have "\<dots> = parse ''/.*'' [] ([] @ param_names body) (rev (lead_items body) @ [Bol])"
    by (rule parse_lead [OF assms(2) d])
  also have "\<dots> = Return (Bol # lead_items body @ [Chr CHR ''/'', Star Dot])"
    by (simp add: slash_not_syntax quantifiable_def quantify_def)
  finally show ?thesis
    unfolding getPathRegExp_def RegExp_def source_W [OF assms(1)] .
qed

lemma hd_split_Nil: "hd (split c s) = [] \<longleftrightarrow> s = [] \<or> hd s = c"
  by (cases s) (auto split: list.splits)

lemma route_results:
  assumes "delimited (seqs (map m tail))" "list_all plain_part B"
    "\<forall>p\<in>set B. CHR ''/'' \<notin> set p"
  shows "(slash_led s \<and> length B \<le> length (tl (split CHR ''/'' s))
            \<and> list_all2 seg_ok B (take (length B) (tl (split CHR ''/'' s)))
          \<longrightarrow> (\<exists>j. seqs (map m (lead_items B @ tail)) (0, s, [])
                  = seqs (map m tail) (j, rest_after (length B) s, caps_of B (tl (split CHR ''/'' s)))))
       \<and> (\<not> (slash_led s \<and> length B \<le> length (tl (split CHR ''/'' s))
            \<and> list_all2 seg_ok B (take (length B) (tl (split CHR ''/'' s))))
          \<longrightarrow> seqs (map m (lead_items B @ tail)) (0, s, []) = [])"
proof (cases "slash_led s")
  case True
  note lm = lead_match [OF assms, of "(0, s, [])"]
  note cs = consume_segs [OF True, of B 0 "[]"]
  show ?thesis
  proof (cases "length B \<le> length (tl (split CHR ''/'' s))
            \<and> list_all2 seg_ok B (take (length B) (tl (split CHR ''/'' s)))")
    case c: True
    then obtain j where "consume B (0, s, [])
        = Some (j, rest_after (length B) s, caps_of B (tl (split CHR ''/'' s)) @ [])"
      using cs by blast
    then show ?thesis using c True lm by auto
  next
    case c: False
    then have "consume B (0, s, []) = None" using cs by blast
    then have "seqs (map m (lead_items B @ tail)) (0, s, []) = []" using lm by simp
    then show ?thesis using c by blast
  qed
next
  case False
  then obtain c t where s: "s = c # t" and c: "c \<noteq> CHR ''/''"
    by (cases s) (auto simp: slash_led_def)
  have "delimited (seqs (map m (lead_items B @ tail)))" by (rule delimited_lead [OF assms(1)])
  then have "seqs (map m (lead_items B @ tail)) (0, s, []) = []"
    using s c by (simp add: delimited_def)
  then show ?thesis using False by simp
qed

lemma rest_Nil_iff:
  assumes "slash_led s"
  shows "rest_after k s = [] \<longleftrightarrow> length (tl (split CHR ''/'' s)) \<le> k"
  using segs_Nil_iff [OF slash_led_rest [OF assms, of k]] segs_rest [OF assms, of k] by simp

lemma split_single_Nil: "split c u = [[]] \<longleftrightarrow> u = []"
proof (cases u)
  case Nil
  then show ?thesis by simp
next
  case (Cons x xs)
  then show ?thesis using split_not_Nil [of c xs] by (auto split: list.splits)
qed

lemma rest_slash_iff:
  assumes "slash_led s"
  shows "rest_after k s = ''/'' \<longleftrightarrow> drop k (tl (split CHR ''/'' s)) = [[]]"
proof -
  let ?r = "rest_after k s"
  have led: "slash_led ?r" by (rule slash_led_rest [OF assms])
  have sg: "tl (split CHR ''/'' ?r) = drop k (tl (split CHR ''/'' s))" by (rule segs_rest [OF assms])
  show ?thesis
  proof (cases ?r)
    case Nil
    then show ?thesis using sg by simp
  next
    case (Cons c u)
    then have c: "c = CHR ''/''" using led by (simp add: slash_led_def)
    have "tl (split CHR ''/'' ?r) = split CHR ''/'' u" unfolding Cons c by simp
    then show ?thesis using sg Cons c split_single_Nil [of "CHR ''/''" u] by simp
  qed
qed

text \<open>A route whose last segment is an ordinary segment.\<close>

lemma match_N:
  assumes re: "re = Bol # lead_items ps @ [Eol]"
    and pl: "list_all plain_part ps" and ns: "\<forall>p\<in>set ps. CHR ''/'' \<notin> set p"
    and d: "distinct (param_names ps)"
  shows "test re s = (slash_led s \<and> list_all2 seg_ok ps (tl (split CHR ''/'' s)))"
    and "slash_led s \<and> list_all2 seg_ok ps (tl (split CHR ''/'' s)) \<Longrightarrow>
           map_option groups (exec re s) = Some (spec_groups ps s)"
proof -
  let ?rs = "tl (split CHR ''/'' s)"
  let ?cond = "slash_led s \<and> length ps \<le> length ?rs \<and> list_all2 seg_ok ps (take (length ps) ?rs)"
  note rr = route_results [OF delimited_N pl ns, of s]
  have gn: "concat (map group_names (lead_items ps @ [Eol])) = param_names ps"
    by (simp add: group_names_lead)
  have full: "(slash_led s \<and> list_all2 seg_ok ps ?rs) = (?cond \<and> rest_after (length ps) s = [])"
  proof (cases "slash_led s")
    case True
    show ?thesis using rest_Nil_iff [OF True, of "length ps"] True
      by (auto dest: list_all2_lengthD)
  next
    case False
    then show ?thesis by simp
  qed
  show t: "test re s = (slash_led s \<and> list_all2 seg_ok ps ?rs)"
  proof (cases ?cond)
    case True
    then obtain j where e: "seqs (map m (lead_items ps @ [Eol])) (0, s, [])
        = seqs (map m [Eol]) (j, rest_after (length ps) s, caps_of ps ?rs)"
      using rr by blast
    show ?thesis unfolding full test_def re exec_Bol e tail_N using True
      by (simp split: list.splits)
  next
    case False
    then have e: "seqs (map m (lead_items ps @ [Eol])) (0, s, []) = []" using rr by blast
    show ?thesis unfolding full test_def re exec_Bol e using False by auto
  qed
  show "map_option groups (exec re s) = Some (spec_groups ps s)"
    if ok: "slash_led s \<and> list_all2 seg_ok ps ?rs"
  proof -
    from ok have c: ?cond and r: "rest_after (length ps) s = []" using full by simp_all
    then obtain j where "seqs (map m (lead_items ps @ [Eol])) (0, s, [])
        = seqs (map m [Eol]) (j, rest_after (length ps) s, caps_of ps ?rs)"
      using rr by blast
    then have res: "seqs (map m (lead_items ps @ [Eol])) (0, s, []) = [(j, [], caps_of ps ?rs)]"
      unfolding tail_N r by simp
    have len: "length ps \<le> length ?rs" using c by simp
    show ?thesis unfolding re exec_Bol res gn
      by (simp add: spec_groups_def Let_def groups_of_caps [OF d len])
  qed
qed

lemma seg_ok_Nil: "seg_ok [] r = (r = [])"
  by (simp add: seg_ok_def startsWith_def)

text \<open>A route that ends in a slash.\<close>

lemma match_S:
  assumes re: "re = Bol # lead_items B @ [Opt (Chr CHR ''/''), Eol]"
    and pl: "list_all plain_part B" and ns: "\<forall>p\<in>set B. CHR ''/'' \<notin> set p"
    and d: "distinct (param_names B)"
  shows "test re s = (slash_led s \<and> (list_all2 seg_ok (B @ [[]]) (tl (split CHR ''/'' s))
                                    \<or> list_all2 seg_ok B (tl (split CHR ''/'' s))))"
    and "slash_led s \<and> (list_all2 seg_ok (B @ [[]]) (tl (split CHR ''/'' s))
                          \<or> list_all2 seg_ok B (tl (split CHR ''/'' s))) \<Longrightarrow>
           map_option groups (exec re s) = Some (spec_groups (B @ [[]]) s)"
proof -
  let ?rs = "tl (split CHR ''/'' s)"
  let ?rest = "rest_after (length B) s"
  let ?cond = "slash_led s \<and> length B \<le> length ?rs \<and> list_all2 seg_ok B (take (length B) ?rs)"
  let ?spec = "slash_led s \<and> (list_all2 seg_ok (B @ [[]]) ?rs \<or> list_all2 seg_ok B ?rs)"
  note rr = route_results [OF delimited_S pl ns, of s]
  have gn: "concat (map group_names (lead_items B @ [Opt (Chr CHR ''/''), Eol])) = param_names B"
    by (simp add: group_names_lead)
  have full: "?spec = (?cond \<and> (?rest = [] \<or> ?rest = ''/''))"
  proof (cases "slash_led s")
    case False
    then show ?thesis by simp
  next
    case True
    note rn = rest_Nil_iff [OF True, of "length B"]
    note rs = rest_slash_iff [OF True, of "length B"]
    have a: "list_all2 seg_ok B ?rs \<longleftrightarrow> (?cond \<and> ?rest = [])"
      using rn True by (auto dest: list_all2_lengthD)
    have b: "list_all2 seg_ok (B @ [[]]) ?rs \<longleftrightarrow> (?cond \<and> ?rest = ''/'')"
    proof
      assume l: "list_all2 seg_ok (B @ [[]]) ?rs"
      then obtain us vs where uv: "?rs = us @ vs" "length us = length B"
        "list_all2 seg_ok B us" "list_all2 seg_ok [[]] vs"
        by (auto simp: list_all2_append1)
      then have "vs = [[]]" by (cases vs) (auto simp: seg_ok_Nil)
      then show "?cond \<and> ?rest = ''/''" using uv True rs by simp
    next
      assume c: "?cond \<and> ?rest = ''/''"
      then have dr: "drop (length B) ?rs = [[]]" using rs by simp
      have "?rs = take (length B) ?rs @ [[]]"
        using append_take_drop_id [of "length B" ?rs] unfolding dr by simp
      moreover have "list_all2 seg_ok (take (length B) ?rs @ [[]]) (take (length B) ?rs @ [[]]) \<or> True"
        by simp
      moreover have "list_all2 seg_ok (B @ [[]]) (take (length B) ?rs @ [[]])"
        using c by (intro list_all2_appendI) (simp_all add: seg_ok_Nil)
      ultimately show "list_all2 seg_ok (B @ [[]]) ?rs" by simp
    qed
    show ?thesis using a b True by blast
  qed
  show "test re s = ?spec"
  proof (cases ?cond)
    case True
    then obtain j where e: "seqs (map m (lead_items B @ [Opt (Chr CHR ''/''), Eol])) (0, s, [])
        = seqs (map m [Opt (Chr CHR ''/''), Eol]) (j, ?rest, caps_of B ?rs)"
      using rr by blast
    show ?thesis unfolding full test_def re exec_Bol e tail_S using True
      by (simp split: list.splits)
  next
    case False
    then have e: "seqs (map m (lead_items B @ [Opt (Chr CHR ''/''), Eol])) (0, s, []) = []"
      using rr by blast
    show ?thesis unfolding full test_def re exec_Bol e using False by auto
  qed
  show "map_option groups (exec re s) = Some (spec_groups (B @ [[]]) s)" if ok: ?spec
  proof -
    from ok have c: ?cond and r: "?rest = [] \<or> ?rest = ''/''" using full by simp_all
    then obtain j where e: "seqs (map m (lead_items B @ [Opt (Chr CHR ''/''), Eol])) (0, s, [])
        = seqs (map m [Opt (Chr CHR ''/''), Eol]) (j, ?rest, caps_of B ?rs)"
      using rr by blast
    have "\<exists>j'. seqs (map m [Opt (Chr CHR ''/''), Eol]) (j, ?rest, caps_of B ?rs)
                 = [(j', [], caps_of B ?rs)]"
      unfolding tail_S using r by auto
    then obtain j' where res: "seqs (map m (lead_items B @ [Opt (Chr CHR ''/''), Eol])) (0, s, [])
                 = [(j', [], caps_of B ?rs)]"
      using e by auto
    have len: "length B \<le> length ?rs" using c by simp
    have np: "\<not> startsWith (last (B @ [[]])) '':''" by (simp add: startsWith_def)
    have pn: "param_names (B @ [[]]) = param_names B"
      using param_names_butlast [of "B @ [[]]"] np by simp
    have zf: "filter (\<lambda>(p, r). startsWith p '':'') (zip (B @ [[]]) ?rs)
                = filter (\<lambda>(p, r). startsWith p '':'') (zip B ?rs)"
      using zip_butlast_filter [of "B @ [[]]" ?rs] np by simp
    show ?thesis unfolding re exec_Bol res gn
      by (simp add: spec_groups_def Let_def pn zf groups_of_caps [OF d len])
  qed
qed

text \<open>A route that ends in \<^verbatim>\<open>*\<close>.\<close>

lemma match_W:
  assumes re: "re = Bol # lead_items B @ [Chr CHR ''/'', Star Dot]"
    and pl: "list_all plain_part B" and ns: "\<forall>p\<in>set B. CHR ''/'' \<notin> set p"
    and d: "distinct (param_names B)"
  shows "test re s = (slash_led s \<and> Suc (length B) \<le> length (tl (split CHR ''/'' s))
                       \<and> list_all2 seg_ok B (take (length B) (tl (split CHR ''/'' s))))"
    and "slash_led s \<and> Suc (length B) \<le> length (tl (split CHR ''/'' s))
           \<and> list_all2 seg_ok B (take (length B) (tl (split CHR ''/'' s))) \<Longrightarrow>
           map_option groups (exec re s) = Some (spec_groups (B @ [''*'']) s)"
proof -
  let ?rs = "tl (split CHR ''/'' s)"
  let ?rest = "rest_after (length B) s"
  let ?cond = "slash_led s \<and> length B \<le> length ?rs \<and> list_all2 seg_ok B (take (length B) ?rs)"
  let ?spec = "slash_led s \<and> Suc (length B) \<le> length ?rs \<and> list_all2 seg_ok B (take (length B) ?rs)"
  let ?dot = "\<lambda>x. x \<noteq> CHR 0x0A \<and> x \<noteq> CHR 0x0D"
  note rr = route_results [OF delimited_W pl ns, of s]
  have gn: "concat (map group_names (lead_items B @ [Chr CHR ''/'', Star Dot])) = param_names B"
    by (simp add: group_names_lead)
  have full: "?spec = (?cond \<and> ?rest \<noteq> [])"
  proof (cases "slash_led s")
    case False
    then show ?thesis by simp
  next
    case True
    show ?thesis using rest_Nil_iff [OF True, of "length B"] by auto
  qed
  have tailres: "?rest \<noteq> [] \<Longrightarrow> slash_led s \<Longrightarrow>
      \<exists>j' t' more. seqs (map m [Chr CHR ''/'', Star Dot]) (j, ?rest, cs) = (j', t', cs) # more"
    for j cs
  proof -
    assume ne: "?rest \<noteq> []" and led: "slash_led s"
    then obtain c u where cu: "?rest = c # u" by (cases ?rest) auto
    have "slash_led ?rest" by (rule slash_led_rest [OF led])
    then have c: "c = CHR ''/''" using cu by (simp add: slash_led_def)
    let ?L = "length (takeWhile ?dot u)"
    have "rev [0 ..< Suc ?L] = ?L # rev [0 ..< ?L]" by simp
    then show ?thesis unfolding tail_W cu c by (simp del: upt_Suc)
  qed
  show "test re s = ?spec"
  proof (cases ?cond)
    case True
    then obtain j where e: "seqs (map m (lead_items B @ [Chr CHR ''/'', Star Dot])) (0, s, [])
        = seqs (map m [Chr CHR ''/'', Star Dot]) (j, ?rest, caps_of B ?rs)"
      using rr by blast
    show ?thesis
    proof (cases "?rest = []")
      case r: True
      then have "seqs (map m [Chr CHR ''/'', Star Dot]) (j, ?rest, caps_of B ?rs) = []"
        unfolding tail_W by simp
      then show ?thesis unfolding full test_def re exec_Bol e using r by simp
    next
      case r: False
      from tailres [OF r, of j "caps_of B ?rs"] True obtain j' t' more where
        "seqs (map m [Chr CHR ''/'', Star Dot]) (j, ?rest, caps_of B ?rs) = (j', t', caps_of B ?rs) # more"
        by blast
      then show ?thesis unfolding full test_def re exec_Bol e using r True by simp
    qed
  next
    case False
    then have e: "seqs (map m (lead_items B @ [Chr CHR ''/'', Star Dot])) (0, s, []) = []"
      using rr by blast
    show ?thesis unfolding full test_def re exec_Bol e using False by auto
  qed
  show "map_option groups (exec re s) = Some (spec_groups (B @ [''*'']) s)" if ok: ?spec
  proof -
    from ok have c: ?cond and r: "?rest \<noteq> []" using full by simp_all
    then obtain j where e: "seqs (map m (lead_items B @ [Chr CHR ''/'', Star Dot])) (0, s, [])
        = seqs (map m [Chr CHR ''/'', Star Dot]) (j, ?rest, caps_of B ?rs)"
      using rr by blast
    from tailres [OF r, of j "caps_of B ?rs"] c obtain j' t' more where
      res: "seqs (map m (lead_items B @ [Chr CHR ''/'', Star Dot])) (0, s, [])
              = (j', t', caps_of B ?rs) # more"
      using e by auto
    have len: "length B \<le> length ?rs" using c by simp
    have np: "\<not> startsWith (last (B @ [''*''])) '':''" by (simp add: startsWith_def)
    have pn: "param_names (B @ [''*'']) = param_names B"
      using param_names_butlast [of "B @ [''*'']"] np by simp
    have zf: "filter (\<lambda>(p, r). startsWith p '':'') (zip (B @ [''*'']) ?rs)
                = filter (\<lambda>(p, r). startsWith p '':'') (zip B ?rs)"
      using zip_butlast_filter [of "B @ [''*'']" ?rs] np by simp
    show ?thesis unfolding re exec_Bol res gn
      by (simp add: spec_groups_def Let_def pn zf groups_of_caps [OF d len])
  qed
qed

lemma prefixPath_slash: "\<exists>rest. prefixPath prefix = CHR ''/'' # rest"
proof (cases "startsWith prefix ''/''")
  case True
  then obtain rest where "prefix = CHR ''/'' # rest"
    by (cases prefix) (auto simp: startsWith_def)
  then show ?thesis by (auto simp: prefixPath_def)
next
  case False
  then show ?thesis by (auto simp: prefixPath_def startsWith_def)
qed

lemma split_fullPath:
  "split CHR ''/'' (fullPath (prefixPath prefix) route)
     = [] # tl (split CHR ''/'' (fullPath (prefixPath prefix) route))"
proof -
  obtain rest where "prefixPath prefix = CHR ''/'' # rest" using prefixPath_slash by blast
  then show ?thesis by (simp add: fullPath_def)
qed

lemma spec_matches_slash_led:
  "spec_matches ps s =
     (slash_led s \<and>
      (if last ps = ''*'' then length ps \<le> length (tl (split CHR ''/'' s))
            \<and> list_all2 seg_ok (butlast ps) (take (length ps - 1) (tl (split CHR ''/'' s)))
       else if last ps = [] then list_all2 seg_ok ps (tl (split CHR ''/'' s))
            \<or> list_all2 seg_ok (butlast ps) (tl (split CHR ''/'' s))
       else list_all2 seg_ok ps (tl (split CHR ''/'' s))))"
  by (simp add: spec_matches_def hd_split_Nil slash_led_def Let_def)

lemma compiled_route:
  assumes sp: "split CHR ''/'' (fullPath pp route) = [] # ps" and pr: "plain_route ps"
  shows "\<exists>re. getPathRegExp pp route = Return re
           \<and> concat (map group_names re) = param_names ps
           \<and> (\<forall>s. test re s = spec_matches ps s)
           \<and> (\<forall>s. spec_matches ps s \<longrightarrow> map_option groups (exec re s) = Some (spec_groups ps s))"
proof -
  define B where "B = butlast ps"
  define l where "l = last ps"
  have ne: "ps \<noteq> []" and plB: "list_all plain_part B" and pll: "plain_part l \<or> l = ''*''"
    and d: "distinct (param_names ps)"
    using pr by (simp_all add: plain_route_def B_def l_def)
  have ps: "ps = B @ [l]" using ne by (simp add: B_def l_def)
  have dB: "distinct (param_names B)"
    unfolding B_def by (rule distinct_param_names_butlast [OF d])
  have ns: "\<forall>p\<in>set ps. CHR ''/'' \<notin> set p"
  proof
    fix p assume "p \<in> set ps"
    then have "p \<in> set (split CHR ''/'' (fullPath pp route))" unfolding sp by simp
    then show "CHR ''/'' \<notin> set p" by (rule split_no_sep)
  qed
  then have nsB: "\<forall>p\<in>set B. CHR ''/'' \<notin> set p" unfolding ps by simp
  have lenB: "length ps - 1 = length B" "length ps = Suc (length B)" unfolding ps by simp_all
  show ?thesis
  proof (cases "l = []")
    case True
    define re where "re = Bol # lead_items B @ [Opt (Chr CHR ''/''), Eol]"
    have sp': "split CHR ''/'' (fullPath pp route) = [] # B @ [[]]" using sp ps True by simp
    have r: "getPathRegExp pp route = Return re"
      unfolding re_def by (rule regexp_S [OF sp' plB dB])
    have gn: "concat (map group_names re) = param_names ps"
      using param_names_butlast [of ps] ne True
      by (simp add: re_def group_names_lead B_def l_def startsWith_def)
    have last: "last ps = []" "butlast ps = B" using True by (simp_all add: l_def B_def)
    have sm: "spec_matches ps s = (slash_led s \<and> (list_all2 seg_ok (B @ [[]]) (tl (split CHR ''/'' s))
                                    \<or> list_all2 seg_ok B (tl (split CHR ''/'' s))))" for s
      unfolding spec_matches_slash_led last using ps True by simp
    have t: "\<forall>s. test re s = spec_matches ps s"
      using match_S(1) [OF re_def plB nsB dB] sm by simp
    have g: "\<forall>s. spec_matches ps s \<longrightarrow> map_option groups (exec re s) = Some (spec_groups ps s)"
      using match_S(2) [OF re_def plB nsB dB] sm ps True by simp
    show ?thesis using r gn t g by blast
  next
    case nonempty: False
    show ?thesis
    proof (cases "l = ''*''")
      case True
      define re where "re = Bol # lead_items B @ [Chr CHR ''/'', Star Dot]"
      have sp': "split CHR ''/'' (fullPath pp route) = [] # B @ [''*'']" using sp ps True by simp
      have r: "getPathRegExp pp route = Return re"
        unfolding re_def by (rule regexp_W [OF sp' plB dB])
      have gn: "concat (map group_names re) = param_names ps"
        using param_names_butlast [of ps] ne True
        by (simp add: re_def group_names_lead B_def l_def startsWith_def)
      have last: "last ps = ''*''" "butlast ps = B" using True by (simp_all add: l_def B_def)
      have sm: "spec_matches ps s = (slash_led s \<and> Suc (length B) \<le> length (tl (split CHR ''/'' s))
                       \<and> list_all2 seg_ok B (take (length B) (tl (split CHR ''/'' s))))" for s
        unfolding spec_matches_slash_led last lenB by simp
      have t: "\<forall>s. test re s = spec_matches ps s"
        using match_W(1) [OF re_def plB nsB dB] sm by simp
      have g: "\<forall>s. spec_matches ps s \<longrightarrow> map_option groups (exec re s) = Some (spec_groups ps s)"
        using match_W(2) [OF re_def plB nsB dB] sm ps True by simp
      show ?thesis using r gn t g by blast
    next
      case False
      then have pl: "plain_part l" using pll by simp
      define re where "re = Bol # lead_items ps @ [Eol]"
      have sp': "split CHR ''/'' (fullPath pp route) = [] # B @ [l]" using sp ps by simp
      have d': "distinct (param_names (B @ [l]))" using d ps by simp
      have r: "getPathRegExp pp route = Return re"
        unfolding re_def using regexp_N [OF sp' pl nonempty plB d'] ps by simp
      have gn: "concat (map group_names re) = param_names ps"
        by (simp add: re_def group_names_lead)
      have plps: "list_all plain_part ps" using plB pl ps by simp
      have last: "last ps \<noteq> ''*''" "last ps \<noteq> []" using False nonempty by (simp_all add: l_def)
      have sm: "spec_matches ps s = (slash_led s \<and> list_all2 seg_ok ps (tl (split CHR ''/'' s)))" for s
        unfolding spec_matches_slash_led using last by simp
      have t: "\<forall>s. test re s = spec_matches ps s"
        using match_N(1) [OF re_def plps ns d] sm by simp
      have g: "\<forall>s. spec_matches ps s \<longrightarrow> map_option groups (exec re s) = Some (spec_groups ps s)"
        using match_N(2) [OF re_def plps ns d] sm by simp
      show ?thesis using r gn t g by blast
    qed
  qed
qed

lemma lead_source_append: "lead_source (xs @ ys) = lead_source xs @ lead_source ys"
  by (simp add: lead_source_def)

lemma cutout_colon: "cutout '':'' = ''(?<>[^/]+)''"
  by (simp add: cutout_def startsWith_def)

lemma keeps_prefix_slash:
  assumes "P \<noteq> []" "last P = CHR '')''"
  shows "\<exists>Z'. replace_final_slash (P @ Z) = P @ Z'"
proof (cases "endsWith (P @ Z) ''/''")
  case False
  then show ?thesis by (simp add: replace_final_slash_def)
next
  case True
  have "Z \<noteq> []"
  proof
    assume "Z = []"
    then have "last (P @ Z) = CHR '')''" using assms by simp
    moreover have "last (P @ Z) = CHR ''/''" using endsWith_last [OF True] by simp
    ultimately show False by simp
  qed
  then have "butlast (P @ Z) = P @ butlast Z" by (simp add: butlast_append)
  then show ?thesis using True by (simp add: replace_final_slash_def)
qed

lemma keeps_prefix_star:
  assumes "P \<noteq> []" "last P = CHR '')''"
  shows "\<exists>Z'. replace_final_star (P @ Z) = P @ Z'"
proof (cases "endsWith (P @ Z) ''/*''")
  case False
  then show ?thesis by (simp add: replace_final_star_def)
next
  case True
  define t where "t = take (length (P @ Z) - 2) (P @ Z)"
  have l2: "length ''/*'' = 2" by simp
  have "drop (length (P @ Z) - 2) (P @ Z) = ''/*''"
    using True unfolding endsWith_def l2 by blast
  then have e: "P @ Z = t @ ''/*''"
    unfolding t_def using append_take_drop_id [of "length (P @ Z) - 2" "P @ Z"] by metis
  have r: "replace_final_star (P @ Z) = t @ ''/.*''"
    using True unfolding replace_final_star_def t_def by simp
  show ?thesis
  proof (cases Z rule: rev_cases)
    case Nil
    then have "last (t @ ''/*'') = CHR '')''" using e assms by simp
    then show ?thesis by simp
  next
    case (snoc Z1 b)
    show ?thesis
    proof (cases Z1 rule: rev_cases)
      case Nil
      then have "P @ [b] = (t @ ''/'') @ ''*''" using e snoc by simp
      then have "P = t @ ''/''" by (metis butlast_snoc)
      then have "last P = CHR ''/''" by simp
      then show ?thesis using assms by simp
    next
      case (snoc Z2 a)
      then have "(P @ Z2) @ [a, b] = t @ [CHR ''/'', CHR ''*'']"
        using e \<open>Z = Z1 @ [b]\<close> by simp
      then have "t = P @ Z2" by (metis append_eq_append_conv length_Cons)
      then show ?thesis using r by simp
    qed
  qed
qed

lemma parse_empty_name: "parse (''(?<>'' @ cs) stk names acc = Throw SyntaxError"
  by (simp add: not_ident_gt)

lemma source_empty_name:
  assumes "split CHR ''/'' (fullPath pp route) = [] # body @ '':'' # others"
  shows "\<exists>Z. pattern_source pp route = ''^'' @ lead_source body @ ''/(?<>[^/]+)'' @ Z"
proof -
  let ?P = "lead_source body @ ''/(?<>[^/]+)''"
  have a: "?P \<noteq> []" by simp
  have b: "last ?P = CHR '')''" by simp
  have j: "join ''/'' (map cutout (split CHR ''/'' (fullPath pp route))) = ?P @ lead_source others"
    unfolding assms source_lead
    using lead_source_append [of body "'':'' # others"]
    by (simp add: lead_source_def cutout_colon)
  obtain Z1 where z1: "replace_final_slash (?P @ lead_source others) = ?P @ Z1"
    using keeps_prefix_slash [OF a b] by blast
  obtain Z2 where z2: "replace_final_star (?P @ Z1) = ?P @ Z2"
    using keeps_prefix_star [OF a b] by blast
  have "pattern_source pp route
          = ''^'' @ (if endsWith (?P @ Z1) ''/*'' then ?P @ Z2 else (?P @ Z1) @ ''$'')"
    unfolding pattern_source_def j z1 Let_def z2 ..
  then show ?thesis by (cases "endsWith (?P @ Z1) ''/*''") auto
qed

lemma empty_name_throws:
  assumes "split CHR ''/'' (fullPath pp route) = [] # body @ '':'' # others"
    "list_all plain_part body" "distinct (param_names body)"
  shows "getPathRegExp pp route = Throw SyntaxError"
proof -
  obtain Z where z: "pattern_source pp route = ''^'' @ lead_source body @ ''/(?<>[^/]+)'' @ Z"
    using source_empty_name [OF assms(1)] by blast
  have d: "distinct ([] @ param_names body)" using assms(3) by simp
  have "parse (''^'' @ lead_source body @ ''/(?<>[^/]+)'' @ Z) [] [] []
          = parse (lead_source body @ ''/(?<>[^/]+)'' @ Z) [] [] [Bol]" by simp
  also have "\<dots> = parse (''/(?<>[^/]+)'' @ Z) [] ([] @ param_names body)
                      (rev (lead_items body) @ [Bol])"
    by (rule parse_lead [OF assms(2) d])
  also have "\<dots> = parse (''(?<>'' @ ''[^/]+)'' @ Z) [] ([] @ param_names body)
                      (Chr CHR ''/'' # rev (lead_items body) @ [Bol])"
    using parse_slash [of "''(?<>[^/]+)'' @ Z"] by simp
  also have "\<dots> = Throw SyntaxError" by (rule parse_empty_name)
  finally show ?thesis unfolding getPathRegExp_def RegExp_def z .
qed

lemma registered_listener_call:
  assumes "any_route pp p h st = (Return a, st1)"
  shows "wrappedRouteHandler env rq a st1 = Some (Return UNHANDLED, st1)
       \<or> (\<exists>g. wrappedRouteHandler env rq a st1
                = Some (handler_response (handler_fn env h rq (st1\<lparr>params := g\<rparr>))))"
proof -
  obtain re where st1: "a = length (listeners st)"
      "st1 = st\<lparr>listeners := listeners st @
                        [\<lparr>pathAsRegExp = re, preConditions = [], routeHandler = Some h\<rparr>],
                      handlers := handlers st @ [Listener a]\<rparr>"
    using any_route_Return [OF assms] by blast
  have l: "a < length (listeners st1)" "preConditions (listeners st1 ! a) = []"
    "routeHandler (listeners st1 ! a) = Some h"
    using st1 by simp_all
  show ?thesis
  proof (cases "exec (pathAsRegExp (listeners st1 ! a)) (path rq)")
    case None
    then show ?thesis unfolding wrapped_no_preconditions [OF l] by simp
  next
    case (Some mr)
    then have "wrappedRouteHandler env rq a st1
                 = Some (handler_response (handler_fn env h rq (st1\<lparr>params := groups mr\<rparr>)))"
      unfolding wrapped_no_preconditions [OF l] by simp
    then show ?thesis by blast
  qed
qed



section \<open>Route patterns: the claims\<close>

text \<open>
  C4, as the claim states it, fails: a literal segment does not match byte for byte
  only.  The segments of a route go into the pattern as they are written, so the dot
  of the route \<^verbatim>\<open>/a.b\<close> is the dot of the pattern \<^verbatim>\<open>^/a.b$\<close>, which the request path
  \<^verbatim>\<open>/axb\<close> matches as well as \<^verbatim>\<open>/a.b\<close>.
\<close>

theorem unescaped_dot_matches_any_character:
  "getPathRegExp (prefixPath ''/'') ''/a.b''
     = Return [Bol, Chr CHR ''/'', Chr CHR ''a'', Dot, Chr CHR ''b'', Eol]
   \<and> test [Bol, Chr CHR ''/'', Chr CHR ''a'', Dot, Chr CHR ''b'', Eol] ''/a.b''
   \<and> test [Bol, Chr CHR ''/'', Chr CHR ''a'', Dot, Chr CHR ''b'', Eol] ''/axb''"
  by code_simp

text \<open>
  C4, amended.  For a route path whose segments, after the prefix path is put in
  front, are literal segments without a syntax character of regular expressions,
  parameters \<^verbatim>\<open>:name\<close> with an identifier as name, no two of the same name, and
  possibly \<^verbatim>\<open>*\<close> as the last segment, the pattern compiles, and it matches a request
  path exactly when the path begins with a slash and: the literal segments are equal
  and a parameter segment stands against a segment that is not empty, segment by
  segment, with the same number of segments; a route ending in \<^verbatim>\<open>*\<close> asks this of
  the segments before the \<^verbatim>\<open>*\<close> only and accepts whatever follows the slash after
  them; a route ending in a slash also accepts the path without that slash.  On a
  match every parameter holds the segment at its place.
\<close>

theorem compiled_pattern_matches_by_segments:
  assumes "plain_route (tl (split CHR ''/'' (fullPath (prefixPath prefix) route)))"
  shows "\<exists>re. getPathRegExp (prefixPath prefix) route = Return re
           \<and> (\<forall>s. test re s
                   = spec_matches (tl (split CHR ''/'' (fullPath (prefixPath prefix) route))) s)
           \<and> (\<forall>s. spec_matches (tl (split CHR ''/'' (fullPath (prefixPath prefix) route))) s \<longrightarrow>
                   map_option groups (exec re s)
                   = Some (spec_groups (tl (split CHR ''/'' (fullPath (prefixPath prefix) route))) s))"
  using compiled_route [OF split_fullPath assms] by blast

theorem compiled_pattern_matches_by_segments_witness:
  "plain_route (tl (split CHR ''/'' (fullPath (prefixPath ''/'') ''/users/:id'')))
   \<and> (\<exists>re. getPathRegExp (prefixPath ''/'') ''/users/:id'' = Return re
          \<and> test re ''/users/42'' \<and> \<not> test re ''/users''
          \<and> map_option groups (exec re ''/users/42'') = Some (Some [(''id'', Some ''42'')]))
   \<and> plain_route (tl (split CHR ''/'' (fullPath (prefixPath ''/'') ''/files/*'')))
   \<and> (\<exists>re. getPathRegExp (prefixPath ''/'') ''/files/*'' = Return re
          \<and> test re ''/files/a/b/c'' \<and> \<not> test re ''/files'')
   \<and> plain_route (tl (split CHR ''/'' (fullPath (prefixPath ''api'') ''/'')))
   \<and> (\<exists>re. getPathRegExp (prefixPath ''api'') ''/'' = Return re
          \<and> test re ''/api/'' \<and> test re ''/api'' \<and> \<not> test re ''/api/x'')"
proof -
  let ?u = "tl (split CHR ''/'' (fullPath (prefixPath ''/'') ''/users/:id''))"
  let ?f = "tl (split CHR ''/'' (fullPath (prefixPath ''/'') ''/files/*''))"
  let ?a = "tl (split CHR ''/'' (fullPath (prefixPath ''api'') ''/''))"
  have pu: "plain_route ?u" by code_simp
  have pf: "plain_route ?f" by code_simp
  have pa: "plain_route ?a" by code_simp
  have u1: "spec_matches ?u ''/users/42''" by code_simp
  have u2: "\<not> spec_matches ?u ''/users''" by code_simp
  have u3: "spec_groups ?u ''/users/42'' = Some [(''id'', Some ''42'')]" by code_simp
  have f1: "spec_matches ?f ''/files/a/b/c''" by code_simp
  have f2: "\<not> spec_matches ?f ''/files''" by code_simp
  have a1: "spec_matches ?a ''/api/''" by code_simp
  have a2: "spec_matches ?a ''/api''" by code_simp
  have a3: "\<not> spec_matches ?a ''/api/x''" by code_simp
  have U: "\<exists>re. getPathRegExp (prefixPath ''/'') ''/users/:id'' = Return re
          \<and> test re ''/users/42'' \<and> \<not> test re ''/users''
          \<and> map_option groups (exec re ''/users/42'') = Some (Some [(''id'', Some ''42'')])"
    using compiled_pattern_matches_by_segments [OF pu] u1 u2 u3 by auto
  have F: "\<exists>re. getPathRegExp (prefixPath ''/'') ''/files/*'' = Return re
          \<and> test re ''/files/a/b/c'' \<and> \<not> test re ''/files''"
    using compiled_pattern_matches_by_segments [OF pf] f1 f2 by auto
  have A: "\<exists>re. getPathRegExp (prefixPath ''api'') ''/'' = Return re
          \<and> test re ''/api/'' \<and> test re ''/api'' \<and> \<not> test re ''/api/x''"
    using compiled_pattern_matches_by_segments [OF pa] a1 a2 a3 by auto
  show ?thesis using pu pf pa U F A by blast
qed

text \<open>
  C7, as the claim states it, fails: not every route path with a parameter segment of
  empty name is refused.  In the route \<^verbatim>\<open>/(?<a>[/:\<close> the segment before \<^verbatim>\<open>:\<close> opens a
  group and a class, so that the text \<^verbatim>\<open>(?<>[^/\<close> which the empty parameter gives is
  read as members of that class, and the pattern \<^verbatim>\<open>^/(?<a>[/(?<>[^/]+)$\<close> compiles:
  the route is registered.
\<close>

theorem class_hides_empty_parameter_name:
  "'':'' \<in> set (split CHR ''/'' (fullPath (prefixPath ''/'') ''/(?<a>[/:''))
   \<and> getPathRegExp (prefixPath ''/'') ''/(?<a>[/:''
       = Return [Bol, Chr CHR ''/'', Group ''a'' [Plus (Class False ''/(?<>[^/'')], Eol]
   \<and> fst (any_route (prefixPath ''/'') ''/(?<a>[/:'' 0 initial_state) = Return 0"
  by code_simp

text \<open>
  C7, amended.  For a route path with a segment \<^verbatim>\<open>:\<close>, a parameter of empty name,
  whose segments before it are literal segments without a syntax character of regular
  expressions or parameters with identifiers as names, no two the same, the
  compilation of the pattern throws a \<^verbatim>\<open>SyntaxError\<close>; \<^verbatim>\<open>any\<close> and \<^verbatim>\<open>add\<close> throw it when
  they are called and register nothing.  And the call of a listener that \<^verbatim>\<open>any\<close> has
  registered, whatever its route, either returns \<open>UNHANDLED\<close> and changes nothing, or
  is the call of its handler: matching the pattern raises nothing.
\<close>

theorem empty_parameter_name_raises_at_registration:
  assumes "tl (split CHR ''/'' (fullPath (prefixPath prefix) route)) = body @ '':'' # others"
    and "list_all plain_part body" and "distinct (param_names body)"
  shows "getPathRegExp (prefixPath prefix) route = Throw SyntaxError
       \<and> any_route (prefixPath prefix) route h st = (Throw SyntaxError, st)
       \<and> add (prefixPath prefix) mth route h st = (Throw SyntaxError, st)
       \<and> (\<forall>p k a st1 env rq. any_route (prefixPath prefix) p k st = (Return a, st1) \<longrightarrow>
            wrappedRouteHandler env rq a st1 = Some (Return UNHANDLED, st1)
            \<or> (\<exists>g. wrappedRouteHandler env rq a st1
                     = Some (handler_response (handler_fn env k rq (st1\<lparr>params := g\<rparr>)))))"
proof -
  have sp: "split CHR ''/'' (fullPath (prefixPath prefix) route) = [] # body @ '':'' # others"
    using split_fullPath [of prefix route] assms(1) by simp
  have t: "getPathRegExp (prefixPath prefix) route = Throw SyntaxError"
    by (rule empty_name_throws [OF sp assms(2,3)])
  have r: "any_route (prefixPath prefix) route h st = (Throw SyntaxError, st)"
    by (simp add: any_route_def t)
  have ad: "add (prefixPath prefix) mth route h st = (Throw SyntaxError, st)"
    by (simp add: add_def r)
  show ?thesis using t r ad registered_listener_call by blast
qed

theorem empty_parameter_name_raises_at_registration_witness:
  "tl (split CHR ''/'' (fullPath (prefixPath ''/api'') ''/users/:/posts'')) = [''api'', ''users''] @ '':'' # [''posts'']
   \<and> list_all plain_part [''api'', ''users''] \<and> distinct (param_names [''api'', ''users''])
   \<and> getPathRegExp (prefixPath ''/api'') ''/users/:/posts'' = Throw SyntaxError
   \<and> any_route (prefixPath ''/api'') ''/users/:/posts'' 0 initial_state = (Throw SyntaxError, initial_state)
   \<and> add (prefixPath ''/api'') ''get'' ''/users/:/posts'' 0 initial_state = (Throw SyntaxError, initial_state)"
proof -
  have a: "tl (split CHR ''/'' (fullPath (prefixPath ''/api'') ''/users/:/posts''))
             = [''api'', ''users''] @ '':'' # [''posts'']" by code_simp
  have b: "list_all plain_part [''api'', ''users'']" by code_simp
  have c: "distinct (param_names [''api'', ''users''])" by code_simp
  show ?thesis
    using empty_parameter_name_raises_at_registration [OF a b c, of 0 initial_state "''get''"] a b c
    by blast
qed



end
